theory Spec2Isabelle
  imports Main
begin

section \<open>The parsed document\<close>

text \<open>
  \<^verbatim>\<open>stateful_browser.py\<close> keeps the current page as a BeautifulSoup tree and reads and
  changes it through \<^verbatim>\<open>find_all\<close>, \<^verbatim>\<open>select\<close>, \<^verbatim>\<open>has_attr\<close>, \<^verbatim>\<open>extend\<close> and
  \<^verbatim>\<open>text\<close>. A document is a finite tree. A tag carries its object identity
  (\<open>nid\<close>), its name, its attribute dictionary and its children; a string node
  carries its text. The root of a page is the \<^verbatim>\<open>BeautifulSoup\<close> object, itself a tag.
\<close>

type_synonym attrs = "(string \<times> string) list"

datatype node =
    Tag (nid: nat) (name: string) (attrs: attrs) (contents: "node list")
  | NavigableString string

text \<open>Python's \<^verbatim>\<open>isinstance(x, bs4.element.Tag)\<close>.\<close>

fun is_tag :: "node \<Rightarrow> bool" where
  "is_tag (Tag i n a cs) = True"
| "is_tag (NavigableString s) = False"

text \<open>\<^verbatim>\<open>tag.has_attr(k)\<close>, \<^verbatim>\<open>k in tag.attrs\<close> and \<^verbatim>\<open>tag[k]\<close> on the attribute dictionary.\<close>

fun get_attr :: "node \<Rightarrow> string \<Rightarrow> string option" where
  "get_attr (Tag i n a cs) k = map_of a k"
| "get_attr (NavigableString s) k = None"

definition has_attr :: "node \<Rightarrow> string \<Rightarrow> bool" where
  "has_attr t k = (get_attr t k \<noteq> None)"

text \<open>
  \<^verbatim>\<open>tag.descendants\<close>: every node below the tag, in document order (a node before
  its own children, siblings left to right). \<^verbatim>\<open>find_all\<close> and \<^verbatim>\<open>select\<close> walk
  the page in this order.
\<close>

fun descendants :: "node \<Rightarrow> node list"
  and descendants_list :: "node list \<Rightarrow> node list" where
  "descendants (Tag i n a cs) = descendants_list cs"
| "descendants (NavigableString s) = []"
| "descendants_list [] = []"
| "descendants_list (c # cs) = c # descendants c @ descendants_list cs"

text \<open>\<^verbatim>\<open>tag.text\<close>: the strings below the tag, concatenated in document order.\<close>

fun string_of :: "node \<Rightarrow> string" where
  "string_of (Tag i n a cs) = []"
| "string_of (NavigableString s) = s"

definition get_text :: "node \<Rightarrow> string" where
  "get_text t = concat (map string_of (descendants t))"

text \<open>
  An attribute filter of \<^verbatim>\<open>find_all\<close>: \<^verbatim>\<open>href=True\<close> asks for the attribute to be
  present, \<^verbatim>\<open>form=form_id\<close> for it to have that value. For a tag without the
  attribute BeautifulSoup compares \<^verbatim>\<open>None\<close> with the value asked for, and \<^verbatim>\<open>None\<close>
  matches the empty string.
\<close>

datatype attr_filter = AttrPresent | AttrEquals string

fun attr_matches :: "string option \<Rightarrow> attr_filter \<Rightarrow> bool" where
  "attr_matches v AttrPresent = (v \<noteq> None)"
| "attr_matches None (AttrEquals s) = (s = [])"
| "attr_matches (Some x) (AttrEquals s) = (x = s)"

fun tag_matches :: "string \<Rightarrow> (string \<times> attr_filter) list \<Rightarrow> node \<Rightarrow> bool" where
  "tag_matches n fs (Tag i m a cs) =
     (m = n \<and> list_all (\<lambda>(k, f). attr_matches (map_of a k) f) fs)"
| "tag_matches n fs (NavigableString s) = False"

definition find_all :: "node \<Rightarrow> string \<Rightarrow> (string \<times> attr_filter) list \<Rightarrow> node list" where
  "find_all p n fs = filter (tag_matches n fs) (descendants p)"

text \<open>
  The identities of the tags of a tree, the tag itself first; and the tag of a
  given identity, as Python reaches it through a reference.
\<close>

fun tag_ids :: "node \<Rightarrow> nat list"
  and tag_ids_list :: "node list \<Rightarrow> nat list" where
  "tag_ids (Tag i n a cs) = i # tag_ids_list cs"
| "tag_ids (NavigableString s) = []"
| "tag_ids_list [] = []"
| "tag_ids_list (c # cs) = tag_ids c @ tag_ids_list cs"

fun find_tag :: "nat \<Rightarrow> node \<Rightarrow> node option"
  and find_tag_list :: "nat \<Rightarrow> node list \<Rightarrow> node option" where
  "find_tag i (Tag j n a cs) = (if j = i then Some (Tag j n a cs) else find_tag_list i cs)"
| "find_tag i (NavigableString s) = None"
| "find_tag_list i [] = None"
| "find_tag_list i (c # cs) =
     (case find_tag i c of Some t \<Rightarrow> Some t | None \<Rightarrow> find_tag_list i cs)"

text \<open>
  \<^verbatim>\<open>tag.extract()\<close>: the tag of identity \<open>i\<close> leaves the tree with everything
  below it.
\<close>

fun extract_tag :: "nat \<Rightarrow> node \<Rightarrow> node"
  and extract_tag_list :: "nat \<Rightarrow> node list \<Rightarrow> node list" where
  "extract_tag i (Tag j n a cs) = Tag j n a (extract_tag_list i cs)"
| "extract_tag i (NavigableString s) = NavigableString s"
| "extract_tag_list i [] = []"
| "extract_tag_list i (Tag j n a cs # ds) =
     (if j = i then extract_tag_list i ds else extract_tag i (Tag j n a cs) # extract_tag_list i ds)"
| "extract_tag_list i (NavigableString s # ds) = NavigableString s # extract_tag_list i ds"

text \<open>The tag of identity \<open>f\<close> receives \<open>e\<close> as its last child.\<close>

fun append_child :: "nat \<Rightarrow> node \<Rightarrow> node \<Rightarrow> node"
  and append_child_list :: "nat \<Rightarrow> node \<Rightarrow> node list \<Rightarrow> node list" where
  "append_child f e (Tag j n a cs) =
     (if j = f then Tag j n a (cs @ [e]) else Tag j n a (append_child_list f e cs))"
| "append_child f e (NavigableString s) = NavigableString s"
| "append_child_list f e [] = []"
| "append_child_list f e (c # cs) = append_child f e c # append_child_list f e cs"

text \<open>
  \<^verbatim>\<open>form.append(e)\<close> of BeautifulSoup on a tag \<open>e\<close> that is already in the tree:
  the tag is taken out of its place (with whatever is below it at that moment)
  and becomes the last child of the form. When the form is not a tag of the page,
  the page only loses \<open>e\<close>.
\<close>

definition append_tag :: "nat \<Rightarrow> node \<Rightarrow> node \<Rightarrow> node" where
  "append_tag f e p =
     (case e of
        Tag i n a cs \<Rightarrow>
          (case find_tag i p of
             Some cur \<Rightarrow> append_child f cur (extract_tag i p)
           | None \<Rightarrow> append_child f e p)
      | NavigableString s \<Rightarrow> append_child f e p)"

section \<open>Python values, errors and output\<close>

text \<open>
  The exceptions the module raises itself, the ones Python raises on its behalf
  (an attribute of \<^verbatim>\<open>None\<close>, an index out of range), the one BeautifulSoup
  raises when a tag is appended to itself, and \<open>Raised\<close> for an exception that
  propagates from a collaborator (the HTTP session, \<^verbatim>\<open>Browser\<close>, \<^verbatim>\<open>Form\<close>).
\<close>

datatype error =
    LinkNotFoundError
  | ValueError_not_refreshable
  | ValueError_url_regex
  | ValueError_insert_into_itself
  | AttributeError_no_form
  | AttributeError
  | IndexError
  | KeyError
  | TypeError
  | Raised string

text \<open>
  The values the dynamically typed arguments \<^verbatim>\<open>link\<close>, \<^verbatim>\<open>url_regex\<close> and
  \<^verbatim>\<open>link_text\<close> take: \<^verbatim>\<open>None\<close>, a string, or a node of a document. A string
  node is a Python \<^verbatim>\<open>str\<close> as well.
\<close>

datatype pyval = PyNone | PyStr string | PyTag node

fun str_of :: "pyval \<Rightarrow> string option" where
  "str_of PyNone = None"
| "str_of (PyStr s) = Some s"
| "str_of (PyTag (NavigableString s)) = Some s"
| "str_of (PyTag (Tag i n a cs)) = None"

text \<open>Python truth: \<^verbatim>\<open>None\<close> and the empty string are false, a tag is true.\<close>

fun truthy :: "pyval \<Rightarrow> bool" where
  "truthy PyNone = False"
| "truthy (PyStr s) = (s \<noteq> [])"
| "truthy (PyTag (NavigableString s)) = (s \<noteq> [])"
| "truthy (PyTag (Tag i n a cs)) = True"

text \<open>
  The keyword arguments that reach \<^verbatim>\<open>links\<close> (\<^verbatim>\<open>bs4_kwargs\<close> and \<^verbatim>\<open>**kwargs\<close> of
  \<^verbatim>\<open>follow_link\<close> and \<^verbatim>\<open>download_link\<close>): a dictionary in which each of the two
  keys is absent or bound to a value. Further keys, which \<^verbatim>\<open>links\<close> hands to
  \<^verbatim>\<open>find_all\<close>, and extra positional arguments are left out.
\<close>

record find_kwargs =
  url_regex :: "pyval option"
  link_text :: "pyval option"

definition empty_kwargs :: find_kwargs where
  "empty_kwargs = \<lparr>url_regex = None, link_text = None\<rparr>"

text \<open>\<^verbatim>\<open>d.update(e)\<close>: the keys of \<open>e\<close> override.\<close>

definition dict_update :: "find_kwargs \<Rightarrow> find_kwargs \<Rightarrow> find_kwargs" where
  "dict_update d e =
     \<lparr>url_regex = (case url_regex e of Some v \<Rightarrow> Some v | None \<Rightarrow> url_regex d),
      link_text = (case link_text e of Some v \<Rightarrow> Some v | None \<Rightarrow> link_text d)\<rparr>"

text \<open>
  What the module prints and shows: \<^verbatim>\<open>sys.stdout.write\<close>, \<^verbatim>\<open>print\<close> with its
  arguments, and a call of \<^verbatim>\<open>Browser.launch_browser\<close> with the page it is given.
\<close>

datatype printed = PVal pyval | PKwargs find_kwargs

datatype out_event = Stdout_write string | Print "printed list" | Launch_browser "node option"

section \<open>Requests, responses and the browser state\<close>

type_synonym headers = "(string \<times> string) list"

record requests_kwargs =
  headers :: "headers option"
  other_kwargs :: "(string \<times> string) list"

record prepared_request =
  req_method :: string
  req_url :: string
  req_headers :: headers
  body :: string

text \<open>
  The fields of a \<^verbatim>\<open>requests.Response\<close> the module reads: \<^verbatim>\<open>resp.soup\<close> (set by
  \<^verbatim>\<open>Browser.add_soup\<close>; \<^verbatim>\<open>None\<close> when the body is not HTML), \<^verbatim>\<open>resp.url\<close> (the
  final URL, after redirects), \<^verbatim>\<open>resp.request\<close>, \<^verbatim>\<open>resp.status_code\<close> and
  \<^verbatim>\<open>resp.content\<close>.
\<close>

record response =
  soup :: "node option"
  resp_url :: string
  resp_request :: prepared_request
  status_code :: int
  content :: string

text \<open>\<^verbatim>\<open>Form(form)\<close> wraps the form's tag by reference.\<close>

datatype form = Form (form_tag: nat)

text \<open>\<^verbatim>\<open>class _BrowserState\<close>.\<close>

record browser_state =
  page :: "node option"
  url :: "string option"
  form :: "form option"
  request :: "prepared_request option"

text \<open>
  \<^verbatim>\<open>_BrowserState(page=..., url=..., request=...)\<close>, as the navigation methods call
  it: \<^verbatim>\<open>form\<close> takes its default \<^verbatim>\<open>None\<close>.
\<close>

definition BrowserState :: "node option \<Rightarrow> string option \<Rightarrow> prepared_request option \<Rightarrow> browser_state" where
  "BrowserState p u r = \<lparr>page = p, url = u, form = None, request = r\<rparr>"

section \<open>The collaborators and the browser\<close>

text \<open>
  The classes \<^verbatim>\<open>Browser\<close> and \<^verbatim>\<open>Form\<close>, the HTTP session, the HTML parser, the CSS
  selector engine, \<^verbatim>\<open>urljoin\<close>, \<^verbatim>\<open>re.search\<close> and the file system are used by the
  module and defined elsewhere: they are parameters. The type \<open>'w\<close> is the world
  outside the browser (the session with its cookies, the network, the files); a
  call that touches it takes the world and returns the next one. An exception of
  a collaborator is its left result.
  \<^item> \<open>browser_get\<close> is \<^verbatim>\<open>Browser.get\<close>: a GET whose response carries its soup;
  \<^item> \<open>browser_submit\<close> is \<^verbatim>\<open>Browser.submit\<close>. It is handed the \<^verbatim>\<open>Form\<close> of the
    state, whose tags are tags of the state's page: it takes the page and the form
    and returns, after its outcome and the next world, the page and the form as it
    leaves them;
  \<^item> \<open>session_get\<close> and \<open>session_send\<close> are the session's \<^verbatim>\<open>get\<close> and \<^verbatim>\<open>send\<close>;
  \<^item> \<open>add_soup\<close> is the soup \<^verbatim>\<open>Browser.add_soup\<close> stores in a response;
  \<^item> \<open>BeautifulSoup\<close> parses a text;
  \<^item> \<open>css_match sel p t\<close> tells whether the tag \<open>t\<close> of the page \<open>p\<close> matches the
    CSS selector \<open>sel\<close>;
  \<^item> \<open>choose_submit\<close> is \<^verbatim>\<open>Form.choose_submit\<close>, called on the \<^verbatim>\<open>Form\<close> of the state.
    Its return value is discarded, so whatever it chooses it records in that
    \<^verbatim>\<open>Form\<close> or in the tags of the page: it takes the page and the form and returns
    the exception it raised, if any, and the page and the form as it leaves them;
  \<^item> \<open>write_file\<close> is \<^verbatim>\<open>open(file, 'wb')\<close> followed by \<^verbatim>\<open>f.write\<close>.
\<close>

datatype btn = Btn_None | Btn_False | Btn_value pyval

record 'w collaborators =
  browser_get :: "'w \<Rightarrow> string \<Rightarrow> requests_kwargs \<Rightarrow> (string + response) \<times> 'w"
  browser_submit ::
    "'w \<Rightarrow> node option \<Rightarrow> form \<Rightarrow> string option \<Rightarrow> requests_kwargs
      \<Rightarrow> (string + response) \<times> 'w \<times> node option \<times> form"
  session_get :: "'w \<Rightarrow> string \<Rightarrow> requests_kwargs \<Rightarrow> (string + response) \<times> 'w"
  session_send :: "'w \<Rightarrow> prepared_request \<Rightarrow> (string + response) \<times> 'w"
  add_soup :: "response \<Rightarrow> (string \<times> string) list \<Rightarrow> node option"
  BeautifulSoup :: "string \<Rightarrow> (string \<times> string) list \<Rightarrow> node"
  urljoin :: "string option \<Rightarrow> string \<Rightarrow> string"
  re_search :: "string \<Rightarrow> string \<Rightarrow> bool"
  css_match :: "string \<Rightarrow> node \<Rightarrow> node \<Rightarrow> bool"
  choose_submit :: "node option \<Rightarrow> form \<Rightarrow> btn \<Rightarrow> string option \<times> node option \<times> form"
  write_file :: "'w \<Rightarrow> string \<Rightarrow> string \<Rightarrow> string option \<times> 'w"

text \<open>
  A \<^verbatim>\<open>StatefulBrowser\<close>: the world it acts on, the configuration it inherits from
  \<^verbatim>\<open>Browser\<close>, its private fields \<^verbatim>\<open>__debug\<close>, \<^verbatim>\<open>__verbose\<close> and \<^verbatim>\<open>__state\<close>, and
  what it has printed so far. The default value \<^verbatim>\<open>{}\<close> of the parameter
  \<^verbatim>\<open>bs4_kwargs\<close> of \<^verbatim>\<open>follow_link\<close> and of \<^verbatim>\<open>download_link\<close> is one dictionary
  object each, created when the method is defined and shared by all later calls:
  the two fields \<open>follow_link_default\<close> and \<open>download_link_default\<close> hold them
  (they are empty when the program starts).
\<close>

record 'w stateful_browser =
  world :: 'w
  soup_config :: "(string \<times> string) list"
  raise_on_404 :: bool
  debug :: bool
  verbose :: int
  state :: browser_state
  stdout :: "out_event list"
  follow_link_default :: find_kwargs
  download_link_default :: find_kwargs

text \<open>\<^verbatim>\<open>StatefulBrowser.__init__\<close>.\<close>

definition init :: "'w \<Rightarrow> (string \<times> string) list \<Rightarrow> bool \<Rightarrow> 'w stateful_browser" where
  "init w cfg r404 =
     \<lparr>world = w, soup_config = cfg, raise_on_404 = r404, debug = False, verbose = 0,
      state = \<lparr>page = None, url = None, form = None, request = None\<rparr>,
      stdout = [], follow_link_default = empty_kwargs, download_link_default = empty_kwargs\<rparr>"

definition put :: "out_event \<Rightarrow> 'w stateful_browser \<Rightarrow> 'w stateful_browser" where
  "put ev c = c\<lparr>stdout := stdout c @ [ev]\<rparr>"

text \<open>\<^verbatim>\<open>launch_browser(soup=None)\<close>: the current page when no soup is given.\<close>

definition launch_browser :: "'w stateful_browser \<Rightarrow> node option \<Rightarrow> 'w stateful_browser" where
  "launch_browser c soup_arg =
     put (Launch_browser (case soup_arg of None \<Rightarrow> page (state c) | Some s \<Rightarrow> Some s)) c"

section \<open>Navigation\<close>

definition absolute_url :: "'w collaborators \<Rightarrow> 'w stateful_browser \<Rightarrow> string \<Rightarrow> string" where
  "absolute_url env c u = urljoin env (url (state c)) u"

text \<open>
  \<^verbatim>\<open>open\<close>: the progress output, then \<^verbatim>\<open>self.get\<close>; the state is replaced only when
  \<^verbatim>\<open>get\<close> returns.
\<close>

definition open_url ::
  "'w collaborators \<Rightarrow> 'w stateful_browser \<Rightarrow> string \<Rightarrow> requests_kwargs
    \<Rightarrow> (error + response) \<times> 'w stateful_browser" where
  "open_url env c u kwargs =
     (let c1 = (if verbose c = 1 then put (Stdout_write ''.'') c
                else if verbose c \<ge> 2 then put (Print [PVal (PyStr u)]) c
                else c)
      in case browser_get env (world c1) u kwargs of
           (Inl e, w) \<Rightarrow> (Inl (Raised e), c1\<lparr>world := w\<rparr>)
         | (Inr resp, w) \<Rightarrow>
             (Inr resp,
              c1\<lparr>world := w,
                 state := BrowserState (soup resp) (Some (resp_url resp))
                            (Some (resp_request resp))\<rparr>))"

text \<open>\<^verbatim>\<open>open_fake_page\<close>: \<^verbatim>\<open>soup_config or self.soup_config\<close>, no request.\<close>

definition open_fake_page ::
  "'w collaborators \<Rightarrow> 'w stateful_browser \<Rightarrow> string \<Rightarrow> string option
    \<Rightarrow> (string \<times> string) list option \<Rightarrow> 'w stateful_browser" where
  "open_fake_page env c page_text url_arg soup_config_arg =
     (let cfg = (case soup_config_arg of
                   None \<Rightarrow> soup_config c
                 | Some s \<Rightarrow> if s = [] then soup_config c else s)
      in c\<lparr>state := BrowserState (Some (BeautifulSoup env page_text cfg)) url_arg None\<rparr>)"

definition open_relative ::
  "'w collaborators \<Rightarrow> 'w stateful_browser \<Rightarrow> string \<Rightarrow> requests_kwargs
    \<Rightarrow> (error + response) \<times> 'w stateful_browser" where
  "open_relative env c u kwargs = open_url env c (absolute_url env c u) kwargs"

definition refresh ::
  "'w collaborators \<Rightarrow> 'w stateful_browser \<Rightarrow> (error + response) \<times> 'w stateful_browser" where
  "refresh env c =
     (case request (state c) of
        None \<Rightarrow> (Inl ValueError_not_refreshable, c)
      | Some old_request \<Rightarrow>
          (case session_send env (world c) old_request of
             (Inl e, w) \<Rightarrow> (Inl (Raised e), c\<lparr>world := w\<rparr>)
           | (Inr r, w) \<Rightarrow>
               (let resp = r\<lparr>soup := add_soup env r (soup_config c)\<rparr>
                in (Inr resp,
                    c\<lparr>world := w,
                      state := BrowserState (soup resp) (Some (resp_url resp))
                                 (Some (resp_request resp))\<rparr>))))"

section \<open>Form selection\<close>

text \<open>
  \<^verbatim>\<open>page.select(selector, limit=n)\<close>: the tags below the page that match, in
  document order, cut after \<open>n\<close> of them; a limit below one is no limit.
\<close>

definition css_matches :: "'w collaborators \<Rightarrow> node \<Rightarrow> string \<Rightarrow> node list" where
  "css_matches env p sel = filter (\<lambda>t. is_tag t \<and> css_match env sel p t) (descendants p)"

definition select :: "'w collaborators \<Rightarrow> node \<Rightarrow> string \<Rightarrow> int \<Rightarrow> node list" where
  "select env p sel limit =
     (let ms = css_matches env p sel in if limit < 1 then ms else take (nat limit) ms)"

definition elements_with_owner_form :: "string list" where
  "elements_with_owner_form =
     [''input'', ''button'', ''fieldset'', ''object'', ''output'', ''select'', ''textarea'']"

definition find_associated_elements :: "node \<Rightarrow> string \<Rightarrow> node list" where
  "find_associated_elements p form_id =
     concat (map (\<lambda>element. find_all p element [(''form'', AttrEquals form_id)])
       elements_with_owner_form)"

text \<open>
  \<^verbatim>\<open>form.extend(new_elements)\<close> appends the elements one after the other, each in
  the tree the earlier ones have left. BeautifulSoup refuses to insert a tag into
  itself; what was appended before stays.
\<close>

fun extend :: "nat \<Rightarrow> node list \<Rightarrow> node \<Rightarrow> error option \<times> node" where
  "extend f [] p = (None, p)"
| "extend f (Tag i n a cs # es) p =
     (if i = f then (Some ValueError_insert_into_itself, p)
      else extend f es (append_tag f (Tag i n a cs) p))"
| "extend f (NavigableString s # es) p = extend f es (append_tag f (NavigableString s) p)"

text \<open>
  The first argument of \<^verbatim>\<open>select_form\<close> is a CSS selector or a node. A string node
  is not a \<^verbatim>\<open>Tag\<close> and is a \<^verbatim>\<open>str\<close>: it goes the selector's way.
\<close>

datatype selector = Selector string | Handle node

definition select_nth ::
  "'w collaborators \<Rightarrow> 'w stateful_browser \<Rightarrow> string \<Rightarrow> int
    \<Rightarrow> (error + node) \<times> 'w stateful_browser" where
  "select_nth env c sel nr =
     (case page (state c) of
        None \<Rightarrow> (Inl AttributeError, c)
      | Some p \<Rightarrow>
          (let found_forms = select env p sel (nr + 1)
           in if int (length found_forms) \<noteq> nr + 1
              then (Inl LinkNotFoundError,
                    if debug c
                    then launch_browser
                           (put (Print [PVal (PyStr ''select_form failed for''),
                                        PVal (PyStr sel)]) c) None
                    else c)
              else (case found_forms of
                      [] \<Rightarrow> (Inl IndexError, c)
                    | x # xs \<Rightarrow> (Inr (last found_forms), c))))"

definition resolve_form ::
  "'w collaborators \<Rightarrow> 'w stateful_browser \<Rightarrow> selector \<Rightarrow> int
    \<Rightarrow> (error + node) \<times> 'w stateful_browser" where
  "resolve_form env c selector nr =
     (case selector of
        Handle (Tag i n a cs) \<Rightarrow>
          (if n \<noteq> ''form'' then (Inl LinkNotFoundError, c) else (Inr (Tag i n a cs), c))
      | Handle (NavigableString s) \<Rightarrow> select_nth env c s nr
      | Selector s \<Rightarrow> select_nth env c s nr)"

text \<open>\<^verbatim>\<open>self.__state.form = Form(form); return self.form\<close>.\<close>

definition set_form :: "'w stateful_browser \<Rightarrow> nat \<Rightarrow> (error + form) \<times> 'w stateful_browser" where
  "set_form c i = (Inr (Form i), c\<lparr>state := (state c)\<lparr>form := Some (Form i)\<rparr>\<rparr>)"

definition select_form ::
  "'w collaborators \<Rightarrow> 'w stateful_browser \<Rightarrow> selector \<Rightarrow> int
    \<Rightarrow> (error + form) \<times> 'w stateful_browser" where
  "select_form env c selector nr =
     (case resolve_form env c selector nr of
        (Inl e, c1) \<Rightarrow> (Inl e, c1)
      | (Inr (NavigableString s), c1) \<Rightarrow> (Inl AttributeError, c1)
      | (Inr (Tag i n a cs), c1) \<Rightarrow>
          (case map_of a ''id'' of
             None \<Rightarrow> set_form c1 i
           | Some form_id \<Rightarrow>
               (case page (state c1) of
                  None \<Rightarrow> (Inl AttributeError, c1)
                | Some p \<Rightarrow>
                    (case extend i (find_associated_elements p form_id) p of
                       (Some e, p') \<Rightarrow> (Inl e, c1\<lparr>state := (state c1)\<lparr>page := Some p'\<rparr>\<rparr>)
                     | (None, p') \<Rightarrow>
                         set_form (c1\<lparr>state := (state c1)\<lparr>page := Some p'\<rparr>\<rparr>) i))))"

text \<open>The \<^verbatim>\<open>form\<close> property.\<close>

definition form_property :: "'w stateful_browser \<Rightarrow> error + form" where
  "form_property c =
     (case form (state c) of None \<Rightarrow> Inl AttributeError_no_form | Some f \<Rightarrow> Inr f)"

section \<open>The Referer header\<close>

text \<open>
  \<^verbatim>\<open>str.lower\<close> on ASCII letters, and \<^verbatim>\<open>requests.structures.CaseInsensitiveDict\<close>:
  an ordered dictionary from the lowered key to the key as last set and its value.
\<close>

definition lower_char :: "char \<Rightarrow> char" where
  "lower_char ch =
     (case map_of (zip ''ABCDEFGHIJKLMNOPQRSTUVWXYZ'' ''abcdefghijklmnopqrstuvwxyz'') ch of
        Some d \<Rightarrow> d
      | None \<Rightarrow> ch)"

definition lower :: "string \<Rightarrow> string" where
  "lower s = map lower_char s"

type_synonym cidict = "(string \<times> string \<times> string) list"

fun cid_setitem :: "cidict \<Rightarrow> string \<Rightarrow> string \<Rightarrow> cidict" where
  "cid_setitem [] k v = [(lower k, k, v)]"
| "cid_setitem ((l, kv) # d) k v =
     (if l = lower k then (l, k, v) # d else (l, kv) # cid_setitem d k v)"

definition CaseInsensitiveDict :: "headers \<Rightarrow> cidict" where
  "CaseInsensitiveDict h = foldl (\<lambda>d (k, v). cid_setitem d k v) [] h"

definition cid_contains :: "cidict \<Rightarrow> string \<Rightarrow> bool" where
  "cid_contains d k = (map_of d (lower k) \<noteq> None)"

definition cid_items :: "cidict \<Rightarrow> headers" where
  "cid_items d = map snd d"

text \<open>
  \<^verbatim>\<open>_merge_referer\<close>. The keyword arguments come back as they were unless the
  header is added; then \<^verbatim>\<open>headers\<close> is the case-insensitive copy with the Referer.
\<close>

definition merge_referer :: "'w stateful_browser \<Rightarrow> requests_kwargs \<Rightarrow> requests_kwargs" where
  "merge_referer c kwargs =
     (let referer = url (state c);
          hs = CaseInsensitiveDict (case headers kwargs of None \<Rightarrow> [] | Some h \<Rightarrow> h)
      in case referer of
           None \<Rightarrow> kwargs
         | Some r \<Rightarrow>
             if \<not> cid_contains hs ''Referer''
             then kwargs\<lparr>headers := Some (cid_items (cid_setitem hs ''Referer'' r))\<rparr>
             else kwargs)"

section \<open>Submission\<close>

text \<open>
  \<^verbatim>\<open>submit_selected\<close>. \<^verbatim>\<open>self.form\<close> raises when no form is selected. The page and
  the form of the state are then what \<^verbatim>\<open>choose_submit\<close> left, and \<^verbatim>\<open>self.submit\<close>
  receives them; after it they are what it left, unless the state is replaced.
\<close>

definition handled :: "'w stateful_browser \<Rightarrow> node option \<Rightarrow> form \<Rightarrow> 'w stateful_browser" where
  "handled c p f = c\<lparr>state := (state c)\<lparr>page := p, form := Some f\<rparr>\<rparr>"

definition submit_selected ::
  "'w collaborators \<Rightarrow> 'w stateful_browser \<Rightarrow> btn \<Rightarrow> bool \<Rightarrow> requests_kwargs
    \<Rightarrow> (error + response) \<times> 'w stateful_browser" where
  "submit_selected env c btnName update_state kwargs =
     (case form_property c of
        Inl e \<Rightarrow> (Inl e, c)
      | Inr f \<Rightarrow>
          (case choose_submit env (page (state c)) f btnName of
             (Some e, p1, f1) \<Rightarrow> (Inl (Raised e), handled c p1 f1)
           | (None, p1, f1) \<Rightarrow>
               (let c1 = handled c p1 f1
                in case browser_submit env (world c1) (page (state c1)) f1 (url (state c1))
                          (merge_referer c1 kwargs) of
                     (Inl e, w, p2, f2) \<Rightarrow> (Inl (Raised e), handled (c1\<lparr>world := w\<rparr>) p2 f2)
                   | (Inr resp, w, p2, f2) \<Rightarrow>
                       (Inr resp,
                        if update_state
                        then c1\<lparr>world := w,
                                state := BrowserState (soup resp) (Some (resp_url resp))
                                           (Some (resp_request resp))\<rparr>
                        else handled (c1\<lparr>world := w\<rparr>) p2 f2))))"

section \<open>Links\<close>

text \<open>
  The two list comprehensions of \<^verbatim>\<open>links\<close>. \<^verbatim>\<open>re.search\<close> wants a pattern: given
  a tag it raises \<^verbatim>\<open>TypeError\<close> at the first link it is tried on. A text never
  equals a tag.
\<close>

definition filter_url_regex ::
  "'w collaborators \<Rightarrow> pyval \<Rightarrow> node list \<Rightarrow> error + node list" where
  "filter_url_regex env v all_links =
     (if v = PyNone then Inr all_links
      else case str_of v of
             Some r \<Rightarrow>
               Inr (filter (\<lambda>a. case get_attr a ''href'' of
                                   Some h \<Rightarrow> re_search env r h
                                 | None \<Rightarrow> False) all_links)
           | None \<Rightarrow> if all_links = [] then Inr [] else Inl TypeError)"

definition filter_link_text :: "pyval \<Rightarrow> node list \<Rightarrow> node list" where
  "filter_link_text v all_links =
     (if v = PyNone then all_links
      else case str_of v of
             Some t \<Rightarrow> filter (\<lambda>a. get_text a = t) all_links
           | None \<Rightarrow> [])"

definition links ::
  "'w collaborators \<Rightarrow> 'w stateful_browser \<Rightarrow> pyval \<Rightarrow> pyval \<Rightarrow> error + node list" where
  "links env c url_regex_arg link_text_arg =
     (case page (state c) of
        None \<Rightarrow> Inl AttributeError
      | Some p \<Rightarrow>
          (case filter_url_regex env url_regex_arg (find_all p ''a'' [(''href'', AttrPresent)]) of
             Inl e \<Rightarrow> Inl e
           | Inr all_links \<Rightarrow> Inr (filter_link_text link_text_arg all_links)))"

text \<open>\<^verbatim>\<open>self.links(**kwargs)\<close>: an absent key takes the default \<^verbatim>\<open>None\<close>.\<close>

definition links_kw ::
  "'w collaborators \<Rightarrow> 'w stateful_browser \<Rightarrow> find_kwargs \<Rightarrow> error + node list" where
  "links_kw env c kwargs =
     links env c (case url_regex kwargs of None \<Rightarrow> PyNone | Some v \<Rightarrow> v)
       (case link_text kwargs of None \<Rightarrow> PyNone | Some v \<Rightarrow> v)"

definition find_link ::
  "'w collaborators \<Rightarrow> 'w stateful_browser \<Rightarrow> find_kwargs \<Rightarrow> error + node" where
  "find_link env c kwargs =
     (case links_kw env c kwargs of
        Inl e \<Rightarrow> Inl e
      | Inr [] \<Rightarrow> Inl LinkNotFoundError
      | Inr (l # ls) \<Rightarrow> Inr l)"

definition list_links ::
  "'w collaborators \<Rightarrow> 'w stateful_browser \<Rightarrow> error option \<times> 'w stateful_browser" where
  "list_links env c =
     (let c1 = put (Print [PVal (PyStr ''Links in the current page:'')]) c
      in case links_kw env c1 empty_kwargs of
           Inl e \<Rightarrow> (Some e, c1)
         | Inr ls \<Rightarrow>
             (None, foldl (\<lambda>b l. put (Print [PVal (PyStr ''    ''), PVal (PyTag l)]) b) c1 ls))"

text \<open>\<^verbatim>\<open>hasattr(link, 'attrs') and 'href' in link.attrs\<close>: the link is a tag with an href.\<close>

fun href_tag :: "pyval \<Rightarrow> node option" where
  "href_tag (PyTag (Tag i n a cs)) =
     (if map_of a ''href'' \<noteq> None then Some (Tag i n a cs) else None)"
| "href_tag (PyTag (NavigableString s)) = None"
| "href_tag (PyStr s) = None"
| "href_tag PyNone = None"

text \<open>
  \<^verbatim>\<open>_find_link_internal(link, args, kwargs)\<close>. The dictionary \<^verbatim>\<open>kwargs\<close> is the
  caller's object, and \<^verbatim>\<open>kwargs['url_regex'] = link\<close> writes into it: the
  dictionary as the call leaves it is the third result.
\<close>

definition find_link_internal ::
  "'w collaborators \<Rightarrow> 'w stateful_browser \<Rightarrow> pyval \<Rightarrow> find_kwargs
    \<Rightarrow> (error + node) \<times> 'w stateful_browser \<times> find_kwargs" where
  "find_link_internal env c link kwargs =
     (case href_tag link of
        Some t \<Rightarrow> (Inr t, c, kwargs)
      | None \<Rightarrow>
          if truthy link \<and> url_regex kwargs \<noteq> None
          then (Inl ValueError_url_regex, c, kwargs)
          else
            (let kwargs1 = (if truthy link then kwargs\<lparr>url_regex := Some link\<rparr> else kwargs)
             in case find_link env c kwargs1 of
                  Inr l \<Rightarrow> (Inr l, c, kwargs1)
                | Inl e \<Rightarrow>
                    if e = LinkNotFoundError \<and> debug c
                    then (case list_links env
                                 (put (Print [PVal (PyStr ''find_link failed for''),
                                              PKwargs kwargs1]) c) of
                            (Some e', c1) \<Rightarrow> (Inl e', c1, kwargs1)
                          | (None, c1) \<Rightarrow>
                              (Inl LinkNotFoundError, launch_browser c1 None, kwargs1))
                    else (Inl e, c, kwargs1)))"

text \<open>
  \<^verbatim>\<open>follow_link\<close>. \<^verbatim>\<open>bs4_kwargs.update(kwargs)\<close> and \<^verbatim>\<open>_find_link_internal\<close> write
  into \<^verbatim>\<open>bs4_kwargs\<close>; when the caller passes none, that is the shared default.
  \<^verbatim>\<open>**requests_kwargs\<close> is unpacked into a fresh dictionary, so its default stays
  empty.
\<close>

definition follow_link ::
  "'w collaborators \<Rightarrow> 'w stateful_browser \<Rightarrow> pyval \<Rightarrow> find_kwargs option
    \<Rightarrow> requests_kwargs \<Rightarrow> find_kwargs \<Rightarrow> (error + response) \<times> 'w stateful_browser" where
  "follow_link env c link bs4_kwargs requests_kw kwargs =
     (let d = dict_update (case bs4_kwargs of None \<Rightarrow> follow_link_default c | Some b \<Rightarrow> b)
                kwargs
      in case find_link_internal env c link d of
           (r, c1, d1) \<Rightarrow>
             (let c2 = (case bs4_kwargs of
                          None \<Rightarrow> c1\<lparr>follow_link_default := d1\<rparr>
                        | Some b \<Rightarrow> c1)
              in case r of
                   Inl e \<Rightarrow> (Inl e, c2)
                 | Inr l \<Rightarrow>
                     (case get_attr l ''href'' of
                        None \<Rightarrow> (Inl KeyError, c2)
                      | Some h \<Rightarrow> open_relative env c2 h (merge_referer c2 requests_kw))))"

definition download_link ::
  "'w collaborators \<Rightarrow> 'w stateful_browser \<Rightarrow> pyval \<Rightarrow> string option
    \<Rightarrow> find_kwargs option \<Rightarrow> requests_kwargs \<Rightarrow> find_kwargs
    \<Rightarrow> (error + response) \<times> 'w stateful_browser" where
  "download_link env c link file bs4_kwargs requests_kw kwargs =
     (let d = dict_update (case bs4_kwargs of None \<Rightarrow> download_link_default c | Some b \<Rightarrow> b)
                kwargs
      in case find_link_internal env c link d of
           (r, c1, d1) \<Rightarrow>
             (let c2 = (case bs4_kwargs of
                          None \<Rightarrow> c1\<lparr>download_link_default := d1\<rparr>
                        | Some b \<Rightarrow> c1)
              in case r of
                   Inl e \<Rightarrow> (Inl e, c2)
                 | Inr l \<Rightarrow>
                     (case get_attr l ''href'' of
                        None \<Rightarrow> (Inl KeyError, c2)
                      | Some h \<Rightarrow>
                          (case session_get env (world c2) (absolute_url env c2 h)
                                  (merge_referer c2 requests_kw) of
                             (Inl e, w) \<Rightarrow> (Inl (Raised e), c2\<lparr>world := w\<rparr>)
                           | (Inr resp, w) \<Rightarrow>
                               if raise_on_404 c2 \<and> status_code resp = 404
                               then (Inl LinkNotFoundError, c2\<lparr>world := w\<rparr>)
                               else
                                 (case file of
                                    None \<Rightarrow> (Inr resp, c2\<lparr>world := w\<rparr>)
                                  | Some path \<Rightarrow>
                                      (case write_file env w path (content resp) of
                                         (Some e, w') \<Rightarrow> (Inl (Raised e), c2\<lparr>world := w'\<rparr>)
                                       | (None, w') \<Rightarrow> (Inr resp, c2\<lparr>world := w'\<rparr>)))))))"

section \<open>Sequences of calls and a sample site\<close>

text \<open>
  A caller that opens one URL after the other, going on after a call that raised:
  the outcomes of the calls, in order, and the browser after the last one.
\<close>

fun open_seq ::
  "'w collaborators \<Rightarrow> 'w stateful_browser \<Rightarrow> (string \<times> requests_kwargs) list
    \<Rightarrow> (error + response) list \<times> 'w stateful_browser" where
  "open_seq env c [] = ([], c)"
| "open_seq env c ((u, kwargs) # calls) =
     (case open_url env c u kwargs of
        (r, c1) \<Rightarrow> (case open_seq env c1 calls of (rs, c2) \<Rightarrow> (r # rs, c2)))"

text \<open>The headers a call passes on, and the Referer among them as the session reads it.\<close>

definition headers_of :: "requests_kwargs \<Rightarrow> headers" where
  "headers_of kwargs = (case headers kwargs of None \<Rightarrow> [] | Some h \<Rightarrow> h)"

definition referer_of :: "requests_kwargs \<Rightarrow> string option" where
  "referer_of kwargs =
     map_option snd (map_of (CaseInsensitiveDict (headers_of kwargs)) (lower ''Referer''))"

text \<open>
  The outcome of a transport as the method that called it passes it on: the
  response, or the exception of the transport.
\<close>

definition raised :: "string + 'a \<Rightarrow> error + 'a" where
  "raised r = (case r of Inl e \<Rightarrow> Inl (Raised e) | Inr x \<Rightarrow> Inr x)"

text \<open>
  A small site for the examples. The world is the list of the requests sent so
  far, each with its URL and headers. Every page of the site is \<open>sample_page\<close>;
  the server redirects each URL to its \<^verbatim>\<open>index.html\<close>, and answers 404 below
  \<^verbatim>\<open>/missing\<close>. The selector engine knows type selectors and the pattern engine
  knows \<^verbatim>\<open>^literal\<close> and literal patterns. \<^verbatim>\<open>Form.choose_submit\<close> accepts a name that
  a control below the form carries and raises for another one; it edits nothing,
  and neither does \<^verbatim>\<open>Browser.submit\<close>, which posts to \<^verbatim>\<open>/submitted\<close>.
\<close>

definition sample_page :: node where
  "sample_page =
     Tag 0 ''[document]'' []
       [Tag 1 ''form'' [(''id'', ''f'')] [Tag 2 ''input'' [(''name'', ''q'')] []],
        Tag 3 ''input'' [(''form'', ''f''), (''name'', ''extra'')] [],
        Tag 4 ''a'' [(''href'', ''/a1'')] [NavigableString ''one''],
        Tag 5 ''a'' [(''href'', ''/b1'')] [NavigableString ''two''],
        Tag 6 ''a'' [(''href'', ''/a2'')] [NavigableString ''three'']]"

definition sample_response :: "string \<Rightarrow> headers \<Rightarrow> response" where
  "sample_response u hs =
     \<lparr>soup = Some sample_page, resp_url = u @ ''/index.html'',
      resp_request = \<lparr>req_method = ''GET'', req_url = u, req_headers = hs, body = []\<rparr>,
      status_code = (if u = ''/missing'' then 404 else 200), content = ''<html>''\<rparr>"

definition sample_search :: "string \<Rightarrow> string \<Rightarrow> bool" where
  "sample_search r h =
     (case r of
        [] \<Rightarrow> True
      | ch # lit \<Rightarrow>
          if ch = CHR ''^'' then take (length lit) h = lit
          else list_ex (\<lambda>k. take (length r) (drop k h) = r) [0..<Suc (length h)])"

definition sample_choose_submit ::
  "node option \<Rightarrow> form \<Rightarrow> btn \<Rightarrow> string option \<times> node option \<times> form" where
  "sample_choose_submit p f b =
     (case b of
        Btn_value v \<Rightarrow>
          (case Option.bind p (find_tag (form_tag f)) of
             None \<Rightarrow> (Some ''LinkNotFoundError'', p, f)
           | Some t \<Rightarrow>
               if list_ex (\<lambda>e. get_attr e ''name'' \<noteq> None \<and> get_attr e ''name'' = str_of v)
                    (descendants t)
               then (None, p, f)
               else (Some ''LinkNotFoundError'', p, f))
      | _ \<Rightarrow> (None, p, f))"

definition sample_site :: "(string \<times> headers) list collaborators" where
  "sample_site =
     \<lparr>browser_get = (\<lambda>w u k. (Inr (sample_response u (headers_of k)), w @ [(u, headers_of k)])),
      browser_submit =
        (\<lambda>w p f u k. (Inr (sample_response ''/submitted'' (headers_of k)),
                       w @ [(''/submitted'', headers_of k)], p, f)),
      session_get = (\<lambda>w u k. (Inr (sample_response u (headers_of k)), w @ [(u, headers_of k)])),
      session_send =
        (\<lambda>w rq. (Inr (sample_response (req_url rq) (req_headers rq)),
                  w @ [(req_url rq, req_headers rq)])),
      add_soup = (\<lambda>r cfg. Some sample_page),
      BeautifulSoup = (\<lambda>t cfg. sample_page),
      urljoin = (\<lambda>b u. u),
      re_search = sample_search,
      css_match = (\<lambda>sel p t. case t of Tag i n a cs \<Rightarrow> n = sel | NavigableString s \<Rightarrow> False),
      choose_submit = sample_choose_submit,
      write_file = (\<lambda>w path d. (None, w))\<rparr>"

definition no_kwargs :: requests_kwargs where
  "no_kwargs = \<lparr>headers = None, other_kwargs = []\<rparr>"

definition new_browser :: "(string \<times> headers) list stateful_browser" where
  "new_browser = init [] [(''features'', ''lxml'')] True"

text \<open>The browser after \<^verbatim>\<open>open("/home")\<close> on the sample site.\<close>

definition at_home :: "(string \<times> headers) list stateful_browser" where
  "at_home = snd (open_url sample_site new_browser ''/home'' no_kwargs)"

text \<open>
  The shape of a \<^verbatim>\<open>CaseInsensitiveDict\<close>: one entry for each lowered key, stored
  under the lowered form of the key it keeps.
\<close>

definition cid_wf :: "cidict \<Rightarrow> bool" where
  "cid_wf d = (distinct (map fst d) \<and> list_all (\<lambda>(l, k, v). l = lower k) d)"

section \<open>Notions for the form's members\<close>

text \<open>
  The identities of the tags that are members of a list of nodes (the children of
  a form, the elements \<^verbatim>\<open>find_all\<close> returned).
\<close>

fun top_ids :: "node list \<Rightarrow> nat list" where
  "top_ids [] = []"
| "top_ids (Tag i n a cs # xs) = i # top_ids xs"
| "top_ids (NavigableString s # xs) = top_ids xs"

text \<open>
  The tag of identity \<open>j\<close> is in the page with name \<open>n\<close> and attributes \<open>a\<close>, and
  the tag \<open>f\<close> is neither this tag nor below it.
\<close>

definition outside :: "nat \<Rightarrow> node \<Rightarrow> nat \<Rightarrow> string \<Rightarrow> attrs \<Rightarrow> bool" where
  "outside f p j n a =
     (case find_tag j p of
        Some (Tag k m b cs) \<Rightarrow> m = n \<and> b = a \<and> f \<notin> set (k # tag_ids_list cs)
      | Some (NavigableString s) \<Rightarrow> False
      | None \<Rightarrow> False)"

text \<open>
  The sample page after \<^verbatim>\<open>select_form("form")\<close>: the input that names the form as its
  owner has become the form's last child. \<open>with_form\<close> is the browser then.
\<close>

definition moved_page :: node where
  "moved_page =
     Tag 0 ''[document]'' []
       [Tag 1 ''form'' [(''id'', ''f'')]
          [Tag 2 ''input'' [(''name'', ''q'')] [],
           Tag 3 ''input'' [(''form'', ''f''), (''name'', ''extra'')] []],
        Tag 4 ''a'' [(''href'', ''/a1'')] [NavigableString ''one''],
        Tag 5 ''a'' [(''href'', ''/b1'')] [NavigableString ''two''],
        Tag 6 ''a'' [(''href'', ''/a2'')] [NavigableString ''three'']]"

definition with_form :: "(string \<times> headers) list stateful_browser" where
  "with_form = at_home\<lparr>state := (state at_home)\<lparr>page := Some moved_page, form := Some (Form 1)\<rparr>\<rparr>"

section \<open>Properties\<close>

subsection \<open>What printing and link lookup leave alone\<close>

lemma state_put [simp]: "state (put ev c) = state c"
  by (simp add: put_def)

lemma state_launch_browser [simp]: "state (launch_browser c s) = state c"
  by (simp add: launch_browser_def)

lemma state_foldl_put [simp]: "state (foldl (\<lambda>b l. put (g l) b) c ls) = state c"
  by (induction ls arbitrary: c) simp_all

lemma state_list_links [simp]: "state (snd (list_links env c)) = state c"
  by (simp add: list_links_def Let_def split: sum.splits)

lemma list_links_state: "list_links env c = (r, c1) \<Longrightarrow> state c1 = state c"
  using state_list_links [of env c] by simp

lemma state_find_link_internal:
  "find_link_internal env c link kwargs = (r, c1, d1) \<Longrightarrow> state c1 = state c"
  unfolding find_link_internal_def Let_def
  by (auto split: if_splits sum.splits option.splits prod.splits dest!: list_links_state)

subsection \<open>Operations that do not navigate\<close>

text \<open>
  C8. \<^verbatim>\<open>download_link\<close> never changes the browser state: whether the link is not
  resolved, the session raises, the response is a 404 turned into
  \<^verbatim>\<open>LinkNotFoundError\<close>, the file cannot be written or the call returns its
  response, the page, the URL, the selected form and the request are those from
  before the call.
\<close>

theorem download_link_keeps_state:
  "state (snd (download_link env c link file bs4_kwargs requests_kw kwargs)) = state c"
proof -
  obtain r c1 d1 where f: "find_link_internal env c link
      (dict_update (case bs4_kwargs of None \<Rightarrow> download_link_default c | Some b \<Rightarrow> b) kwargs)
        = (r, c1, d1)"
    using prod_cases3 by blast
  have "state c1 = state c"
    using state_find_link_internal [OF f] .
  then show ?thesis
    by (simp add: download_link_def Let_def f split: option.splits sum.splits prod.splits)
qed

lemma handled_fields [simp]:
  "world (handled c p f) = world c"
  "page (state (handled c p f)) = p"
  "form (state (handled c p f)) = Some f"
  "url (state (handled c p f)) = url (state c)"
  "request (state (handled c p f)) = request (state c)"
  by (simp_all add: handled_def)

lemma merge_referer_handled [simp]: "merge_referer (handled c p f) kw = merge_referer c kw"
  by (simp add: merge_referer_def)

lemma handled_world: "handled c p f\<lparr>world := w\<rparr> = handled (c\<lparr>world := w\<rparr>) p f"
  by (simp add: handled_def)

lemma handled_handled [simp]: "handled (handled c p f) q g = handled c q g"
  by (simp add: handled_def)

lemma handled_replaced:
  "handled c p f\<lparr>state := s\<rparr> = c\<lparr>state := s\<rparr>"
  by (simp add: handled_def)


lemma submit_selected_sent:
  assumes "form (state c) = Some f"
    and "choose_submit env (page (state c)) f btnName = (None, p1, f1)"
    and "browser_submit env (world c) p1 f1 (url (state c)) (merge_referer c kwargs)
           = (r, w, p2, f2)"
  shows "submit_selected env c btnName update_state kwargs =
           (case r of
              Inl e \<Rightarrow> (Inl (Raised e), handled (c\<lparr>world := w\<rparr>) p2 f2)
            | Inr resp \<Rightarrow>
                (Inr resp,
                 if update_state
                 then c\<lparr>world := w,
                        state := BrowserState (soup resp) (Some (resp_url resp))
                                   (Some (resp_request resp))\<rparr>
                 else handled (c\<lparr>world := w\<rparr>) p2 f2))"
  using assms
  by (cases r)
     (simp_all add: submit_selected_def form_property_def Let_def handled_world handled_replaced)


subsection \<open>Navigation replaces the state\<close>

lemma open_url_state:
  "open_url env c u kwargs = (Inr resp, c') \<Longrightarrow>
   state c' = \<lparr>page = soup resp, url = Some (resp_url resp), form = None,
               request = Some (resp_request resp)\<rparr>"
  by (auto simp: open_url_def Let_def BrowserState_def split: prod.splits sum.splits if_splits)

text \<open>
  C1. After a sequence of \<^verbatim>\<open>open\<close> calls whose last call returned a response, the
  state is the one built from that response: its page is the response's soup, its
  URL the response's final URL (whatever URL was asked for), its request the
  response's request, and no form is selected.
\<close>

theorem open_seq_state:
  assumes "open_seq env c calls = (rs, c')" and "rs \<noteq> []" and "last rs = Inr resp"
  shows "state c' = \<lparr>page = soup resp, url = Some (resp_url resp), form = None,
                      request = Some (resp_request resp)\<rparr>"
  using assms
proof (induction calls arbitrary: c rs)
  case Nil
  then show ?case by simp
next
  case (Cons call calls)
  obtain u kwargs where call: "call = (u, kwargs)" by (cases call)
  obtain r c1 where o: "open_url env c u kwargs = (r, c1)" by (cases "open_url env c u kwargs")
  obtain rs1 c2 where s: "open_seq env c1 calls = (rs1, c2)" by (cases "open_seq env c1 calls")
  from Cons.prems(1) call o s have rs: "rs = r # rs1" and c': "c' = c2" by simp_all
  show ?case
  proof (cases "rs1 = []")
    case True
    then have "calls = []" using s by (cases calls) (auto split: prod.splits)
    with s have "c2 = c1" by simp
    moreover from True rs Cons.prems(3) have "r = Inr resp" by simp
    ultimately show ?thesis using open_url_state o c' by blast
  next
    case False
    with rs Cons.prems(3) have "last rs1 = Inr resp" by simp
    from Cons.IH [OF s [unfolded c' [symmetric]] False this] show ?thesis by simp
  qed
qed

lemma at_home_eq:
  "at_home = new_browser\<lparr>world := [(''/home'', [])],
      state := BrowserState (Some sample_page) (Some ''/home/index.html'')
        (Some \<lparr>req_method = ''GET'', req_url = ''/home'', req_headers = [], body = []\<rparr>)\<rparr>"
  by (simp add: at_home_def open_url_def new_browser_def init_def sample_site_def
      sample_response_def headers_of_def no_kwargs_def)

theorem open_seq_state_witness:
  "fst (open_seq sample_site new_browser [(''/home'', no_kwargs), (''/news'', no_kwargs)]) \<noteq> []
   \<and> last (fst (open_seq sample_site new_browser [(''/home'', no_kwargs), (''/news'', no_kwargs)]))
       = Inr (sample_response ''/news'' [])
   \<and> state (snd (open_seq sample_site new_browser [(''/home'', no_kwargs), (''/news'', no_kwargs)]))
       = \<lparr>page = Some sample_page, url = Some ''/news/index.html'', form = None,
          request = Some \<lparr>req_method = ''GET'', req_url = ''/news'', req_headers = [], body = []\<rparr>\<rparr>"
proof -
  let ?run = "open_seq sample_site new_browser [(''/home'', no_kwargs), (''/news'', no_kwargs)]"
  have a: "fst ?run \<noteq> []"
    by (simp add: open_url_def split: prod.splits)
  have b: "last (fst ?run) = Inr (sample_response ''/news'' [])"
    by (simp add: open_url_def new_browser_def init_def sample_site_def headers_of_def no_kwargs_def
        split: prod.splits)
  have "?run = (fst ?run, snd ?run)" by simp
  from open_seq_state [OF this a b] a b show ?thesis
    by (simp add: sample_response_def)
qed

subsection \<open>Refreshing\<close>

lemma refresh_None: "request (state c) = None \<Longrightarrow> refresh env c = (Inl ValueError_not_refreshable, c)"
  by (simp add: refresh_def)

lemma refresh_Some_not:
  "request (state c) = Some rq \<Longrightarrow> fst (refresh env c) \<noteq> Inl ValueError_not_refreshable"
  by (simp add: refresh_def Let_def split: prod.splits sum.splits)

lemma refresh_Some_ok:
  "request (state c) = Some rq \<Longrightarrow> session_send env (world c) rq = (Inr r2, w2) \<Longrightarrow>
   refresh env c =
     (Inr (r2\<lparr>soup := add_soup env r2 (soup_config c)\<rparr>),
      c\<lparr>world := w2,
        state := BrowserState (add_soup env r2 (soup_config c)) (Some (resp_url r2))
                   (Some (resp_request r2))\<rparr>)"
  by (simp add: refresh_def Let_def)

text \<open>
  C3. \<^verbatim>\<open>refresh\<close> raises its \<^verbatim>\<open>ValueError\<close> ("the current page is not refreshable")
  exactly when the state holds no request, and then the browser is as before. That
  is so right after \<^verbatim>\<open>open_fake_page\<close> and on a browser that never navigated.
  After an \<^verbatim>\<open>open\<close> that returned, \<^verbatim>\<open>refresh\<close> sends the stored request again and,
  when the session answers, replaces the state from the new response.
\<close>

theorem refresh_not_refreshable:
  "(fst (refresh env c) = Inl ValueError_not_refreshable) = (request (state c) = None)
   \<and> (request (state c) = None \<longrightarrow> refresh env c = (Inl ValueError_not_refreshable, c))
   \<and> refresh env (open_fake_page env c page_text url_arg cfg)
       = (Inl ValueError_not_refreshable, open_fake_page env c page_text url_arg cfg)
   \<and> refresh env (init w cfg0 r404) = (Inl ValueError_not_refreshable, init w cfg0 r404)
   \<and> (open_url env c u kwargs = (Inr resp, c1) \<longrightarrow>
        session_send env (world c1) (resp_request resp) = (Inr r2, w2) \<longrightarrow>
        refresh env c1 =
          (Inr (r2\<lparr>soup := add_soup env r2 (soup_config c1)\<rparr>),
           c1\<lparr>world := w2,
              state := BrowserState (add_soup env r2 (soup_config c1)) (Some (resp_url r2))
                         (Some (resp_request r2))\<rparr>))"
proof (intro conjI impI)
  show "(fst (refresh env c) = Inl ValueError_not_refreshable) = (request (state c) = None)"
    using refresh_None [of c env] refresh_Some_not [of c _ env]
    by (cases "request (state c)") auto
  show "request (state c) = None \<Longrightarrow> refresh env c = (Inl ValueError_not_refreshable, c)"
    by (rule refresh_None)
  show "refresh env (open_fake_page env c page_text url_arg cfg)
       = (Inl ValueError_not_refreshable, open_fake_page env c page_text url_arg cfg)"
    by (rule refresh_None) (simp add: open_fake_page_def Let_def BrowserState_def)
  show "refresh env (init w cfg0 r404) = (Inl ValueError_not_refreshable, init w cfg0 r404)"
    by (rule refresh_None) (simp add: init_def)
next
  assume o: "open_url env c u kwargs = (Inr resp, c1)"
    and s: "session_send env (world c1) (resp_request resp) = (Inr r2, w2)"
  from open_url_state [OF o] have "request (state c1) = Some (resp_request resp)" by simp
  from refresh_Some_ok [OF this s]
  show "refresh env c1 =
          (Inr (r2\<lparr>soup := add_soup env r2 (soup_config c1)\<rparr>),
           c1\<lparr>world := w2,
              state := BrowserState (add_soup env r2 (soup_config c1)) (Some (resp_url r2))
                         (Some (resp_request r2))\<rparr>)" .
qed

lemma open_home:
  "open_url sample_site new_browser ''/home'' no_kwargs = (Inr (sample_response ''/home'' []), at_home)"
  by (simp add: at_home_def open_url_def new_browser_def init_def sample_site_def
      headers_of_def no_kwargs_def)

lemma send_home:
  "session_send sample_site (world at_home) (resp_request (sample_response ''/home'' []))
     = (Inr (sample_response ''/home'' []), [(''/home'', []), (''/home'', [])])"
  by (simp add: at_home_eq sample_site_def sample_response_def)

theorem refresh_not_refreshable_witness:
  "request (state new_browser) = None
   \<and> refresh sample_site new_browser = (Inl ValueError_not_refreshable, new_browser)
   \<and> open_url sample_site new_browser ''/home'' no_kwargs = (Inr (sample_response ''/home'' []), at_home)
   \<and> session_send sample_site (world at_home) (resp_request (sample_response ''/home'' []))
       = (Inr (sample_response ''/home'' []), [(''/home'', []), (''/home'', [])])
   \<and> fst (refresh sample_site at_home) = Inr (sample_response ''/home'' [])
   \<and> url (state (snd (refresh sample_site at_home))) = Some ''/home/index.html''
   \<and> world (snd (refresh sample_site at_home)) = [(''/home'', []), (''/home'', [])]"
proof -
  have n: "request (state new_browser) = None"
    by (simp add: new_browser_def init_def)
  note t = refresh_not_refreshable [of sample_site new_browser _ _ _ _ _ _ "''/home''" no_kwargs
      "sample_response ''/home'' []" at_home "sample_response ''/home'' []"
      "[(''/home'', []), (''/home'', [])]"]
  from t n have r1: "refresh sample_site new_browser = (Inl ValueError_not_refreshable, new_browser)"
    by blast
  from t open_home send_home have r2: "refresh sample_site at_home =
          (Inr ((sample_response ''/home'' [])\<lparr>soup := add_soup sample_site (sample_response ''/home'' []) (soup_config at_home)\<rparr>),
           at_home\<lparr>world := [(''/home'', []), (''/home'', [])],
              state := BrowserState (add_soup sample_site (sample_response ''/home'' []) (soup_config at_home)) (Some (resp_url (sample_response ''/home'' [])))
                         (Some (resp_request (sample_response ''/home'' [])))\<rparr>)"
    by blast
  have a: "fst (refresh sample_site at_home) = Inr (sample_response ''/home'' [])"
    unfolding r2 by (simp add: sample_site_def sample_response_def)
  have b: "url (state (snd (refresh sample_site at_home))) = Some ''/home/index.html''"
    unfolding r2 by (simp add: BrowserState_def sample_response_def)
  have c: "world (snd (refresh sample_site at_home)) = [(''/home'', []), (''/home'', [])]"
    unfolding r2 by simp
  show ?thesis
    using n r1 open_home send_home a b c by blast
qed

subsection \<open>Conflicting link arguments\<close>

lemma url_regex_dict_update:
  "url_regex kwargs \<noteq> None \<or> url_regex b \<noteq> None \<Longrightarrow> url_regex (dict_update b kwargs) \<noteq> None"
  by (auto simp: dict_update_def split: option.splits)

lemma find_link_internal_conflict:
  "truthy link \<Longrightarrow> href_tag link = None \<Longrightarrow> url_regex d \<noteq> None \<Longrightarrow>
   find_link_internal env c link d = (Inl ValueError_url_regex, c, d)"
  by (simp add: find_link_internal_def)

text \<open>
  C9. When \<^verbatim>\<open>follow_link\<close> or \<^verbatim>\<open>download_link\<close> is given a link that is a pattern
  (a true value that is not a tag with an href) and \<^verbatim>\<open>url_regex\<close> is a key of the
  keyword arguments or of \<^verbatim>\<open>bs4_kwargs\<close>, the call raises the \<^verbatim>\<open>ValueError\<close> of
  \<^verbatim>\<open>_find_link_internal\<close>. Nothing was looked up, requested or printed: the browser
  is the one from before, up to the default \<^verbatim>\<open>bs4_kwargs\<close> dictionary, which
  \<^verbatim>\<open>bs4_kwargs.update(kwargs)\<close> has already written to.
\<close>

theorem url_regex_conflict:
  assumes "truthy link" and "href_tag link = None"
    and "url_regex kwargs \<noteq> None \<or> (\<exists>b. bs4_kwargs = Some b \<and> url_regex b \<noteq> None)"
  shows "follow_link env c link bs4_kwargs requests_kw kwargs =
           (Inl ValueError_url_regex,
            case bs4_kwargs of
              None \<Rightarrow> c\<lparr>follow_link_default := dict_update (follow_link_default c) kwargs\<rparr>
            | Some b \<Rightarrow> c)
       \<and> download_link env c link file bs4_kwargs requests_kw kwargs =
           (Inl ValueError_url_regex,
            case bs4_kwargs of
              None \<Rightarrow> c\<lparr>download_link_default := dict_update (download_link_default c) kwargs\<rparr>
            | Some b \<Rightarrow> c)"
proof -
  have f: "url_regex (dict_update (case bs4_kwargs of None \<Rightarrow> follow_link_default c | Some b \<Rightarrow> b) kwargs) \<noteq> None"
    using assms(3) by (intro url_regex_dict_update) (auto split: option.splits)
  have d: "url_regex (dict_update (case bs4_kwargs of None \<Rightarrow> download_link_default c | Some b \<Rightarrow> b) kwargs) \<noteq> None"
    using assms(3) by (intro url_regex_dict_update) (auto split: option.splits)
  show ?thesis
    using find_link_internal_conflict [OF assms(1,2) f, of env c]
          find_link_internal_conflict [OF assms(1,2) d, of env c]
    by (simp add: follow_link_def download_link_def Let_def split: option.splits)
qed

theorem url_regex_conflict_witness:
  "truthy (PyStr ''^/a'') \<and> href_tag (PyStr ''^/a'') = None
   \<and> url_regex \<lparr>url_regex = Some (PyStr ''^/b''), link_text = None\<rparr> \<noteq> None
   \<and> follow_link sample_site at_home (PyStr ''^/a'') None no_kwargs
         \<lparr>url_regex = Some (PyStr ''^/b''), link_text = None\<rparr>
       = (Inl ValueError_url_regex,
          at_home\<lparr>follow_link_default := \<lparr>url_regex = Some (PyStr ''^/b''), link_text = None\<rparr>\<rparr>)
   \<and> download_link sample_site at_home (PyStr ''^/a'') (Some ''out.bin'') None no_kwargs
         \<lparr>url_regex = Some (PyStr ''^/b''), link_text = None\<rparr>
       = (Inl ValueError_url_regex,
          at_home\<lparr>download_link_default := \<lparr>url_regex = Some (PyStr ''^/b''), link_text = None\<rparr>\<rparr>)"
proof -
  have a: "truthy (PyStr ''^/a'')" by simp
  have b: "href_tag (PyStr ''^/a'') = None" by simp
  have c: "url_regex \<lparr>url_regex = Some (PyStr ''^/b''), link_text = None\<rparr> \<noteq> None
           \<or> (\<exists>b. (None :: find_kwargs option) = Some b \<and> url_regex b \<noteq> None)" by simp
  have d: "follow_link_default at_home = empty_kwargs" "download_link_default at_home = empty_kwargs"
    by (simp_all add: at_home_eq new_browser_def init_def)
  from url_regex_conflict [OF a b c, of sample_site at_home no_kwargs "Some ''out.bin''"] a b
  show ?thesis
    by (simp add: d dict_update_def empty_kwargs_def)
qed

subsection \<open>Identities in a tree\<close>

lemma find_tag_None_iff:
  "(find_tag i p = None) = (i \<notin> set (tag_ids p))"
  "(find_tag_list i cs = None) = (i \<notin> set (tag_ids_list cs))"
  by (induction i p and i cs rule: find_tag_find_tag_list.induct) (auto split: option.splits)

lemma find_tag_Some_id:
  "find_tag i p = Some t \<Longrightarrow> \<exists>n a cs. t = Tag i n a cs"
  "find_tag_list i ds = Some t \<Longrightarrow> \<exists>n a cs. t = Tag i n a cs"
  by (induction i p and i ds rule: find_tag_find_tag_list.induct) (auto split: option.splits if_splits)

lemma find_tag_in_descendants:
  "find_tag i p = Some t \<Longrightarrow> t = p \<or> t \<in> set (descendants p)"
  "find_tag_list i ds = Some t \<Longrightarrow> t \<in> set (descendants_list ds)"
  by (induction i p and i ds rule: find_tag_find_tag_list.induct) (auto split: option.splits if_splits)

lemma descendants_tag_ids:
  "Tag i n a cs \<in> set (descendants p) \<Longrightarrow> i \<in> set (tag_ids p)"
  "Tag i n a cs \<in> set (descendants_list ds) \<Longrightarrow> i \<in> set (tag_ids_list ds)"
  by (induction p and ds rule: descendants_descendants_list.induct) auto

lemma find_tag_unique:
  "distinct (tag_ids p) \<Longrightarrow> Tag i n a cs \<in> set (descendants p) \<Longrightarrow> find_tag i p = Some (Tag i n a cs)"
  "distinct (tag_ids_list ds) \<Longrightarrow> Tag i n a cs \<in> set (descendants_list ds) \<Longrightarrow> find_tag_list i ds = Some (Tag i n a cs)"
proof (induction p and ds rule: descendants_descendants_list.induct)
  case (1 j m b es)
  then show ?case by (auto dest: descendants_tag_ids(2))
next
  case (2 s)
  then show ?case by simp
next
  case 3
  then show ?case by simp
next
  case (4 c ds)
  from "4.prems"(1) have dc: "distinct (tag_ids c)" and dd: "distinct (tag_ids_list ds)"
    and disj: "set (tag_ids c) \<inter> set (tag_ids_list ds) = {}" by auto
  from "4.prems"(2) consider "Tag i n a cs = c" | "Tag i n a cs \<in> set (descendants c)"
    | "Tag i n a cs \<in> set (descendants_list ds)" by auto
  then show ?case
  proof cases
    case 1
    then show ?thesis by (cases c) auto
  next
    case 2
    from "4.IH"(1) [OF dc 2] show ?thesis by simp
  next
    case 3
    then have "i \<in> set (tag_ids_list ds)" by (rule descendants_tag_ids(2))
    with disj have "i \<notin> set (tag_ids c)" by auto
    then have "find_tag i c = None" by (simp add: find_tag_None_iff)
    with "4.IH"(2) [OF dd 3] show ?thesis by simp
  qed
qed


subsection \<open>Selecting a form\<close>

lemma select_length:
  "0 \<le> nr \<Longrightarrow> (int (length (select env p sel (nr + 1))) \<noteq> nr + 1)
     = (length (css_matches env p sel) < nat nr + 1)"
  by (auto simp: select_def Let_def)

lemma select_last:
  "0 \<le> nr \<Longrightarrow> nat nr < length (css_matches env p sel) \<Longrightarrow>
   last (select env p sel (nr + 1)) = css_matches env p sel ! nat nr"
  by (simp add: select_def Let_def nat_add_distrib take_Suc_conv_app_nth)

lemma select_nth_not_found:
  "0 \<le> nr \<Longrightarrow> (fst (select_nth env c sel nr) = Inl LinkNotFoundError)
     = (case page (state c) of None \<Rightarrow> False
        | Some p \<Rightarrow> length (css_matches env p sel) < nat nr + 1)"
  using select_length [of nr env _ sel]
  by (auto simp: select_nth_def Let_def split: option.splits list.splits)

lemma select_nth_Inr_tag:
  "select_nth env c sel nr = (Inr t, c1) \<Longrightarrow> is_tag t"
proof -
  assume a: "select_nth env c sel nr = (Inr t, c1)"
  then obtain p where p: "page (state c) = Some p"
    by (auto simp: select_nth_def split: option.splits)
  from a p have "t = last (select env p sel (nr + 1))" and ne: "select env p sel (nr + 1) \<noteq> []"
    by (auto simp: select_nth_def Let_def split: if_splits list.splits)
  then have "t \<in> set (select env p sel (nr + 1))" by simp
  then have "t \<in> set (css_matches env p sel)"
    by (auto simp: select_def Let_def split: if_splits dest: in_set_takeD)
  then show ?thesis by (simp add: css_matches_def)
qed

lemma extend_error:
  "extend f es p = (Some e, p') \<Longrightarrow> e = ValueError_insert_into_itself"
  by (induction f es p rule: extend.induct) (auto split: if_splits)

lemma select_form_not_found_iff:
  "(fst (select_form env c selector nr) = Inl LinkNotFoundError)
     = (fst (resolve_form env c selector nr) = Inl LinkNotFoundError)"
proof (cases "resolve_form env c selector nr")
  case (Pair r c1)
  show ?thesis
  proof (cases r)
    case (Inl e)
    with Pair show ?thesis by (simp add: select_form_def)
  next
    case (Inr t)
    show ?thesis
    proof (cases t)
      case (NavigableString s)
      with Pair Inr show ?thesis by (simp add: select_form_def)
    next
      case (Tag i n a cs)
      with Pair Inr show ?thesis
        by (auto simp: select_form_def set_form_def split: option.splits prod.splits
            dest: extend_error)
    qed
  qed
qed


lemma top_ids_mem: "i \<in> set (top_ids xs) \<Longrightarrow> \<exists>n a cs. Tag i n a cs \<in> set xs"
  by (induction xs rule: top_ids.induct) auto

lemma mem_top_ids: "Tag i n a cs \<in> set xs \<Longrightarrow> i \<in> set (top_ids xs)"
  by (induction xs rule: top_ids.induct) auto

lemma extend_no_error:
  "f \<notin> set (top_ids es) \<Longrightarrow> fst (extend f es p) = None"
  by (induction f es p rule: extend.induct) auto

lemma find_associated_elements_set:
  "e \<in> set (find_associated_elements p form_id) \<Longrightarrow>
   e \<in> set (descendants p) \<and>
   (\<exists>i n a cs. e = Tag i n a cs \<and> n \<in> set elements_with_owner_form
      \<and> attr_matches (map_of a ''form'') (AttrEquals form_id))"
  by (cases e) (auto simp: find_associated_elements_def find_all_def)

lemma form_not_associated:
  assumes d: "distinct (tag_ids p)" and f: "Tag i ''form'' a cs \<in> set (descendants p)"
  shows "i \<notin> set (top_ids (find_associated_elements p form_id))"
proof
  assume "i \<in> set (top_ids (find_associated_elements p form_id))"
  then obtain n b ds where e: "Tag i n b ds \<in> set (find_associated_elements p form_id)"
    by (auto dest: top_ids_mem)
  from find_associated_elements_set [OF e] have
    ed: "Tag i n b ds \<in> set (descendants p)" and n: "n \<in> set elements_with_owner_form"
    by auto
  from find_tag_unique(1) [OF d f] find_tag_unique(1) [OF d ed] have "n = ''form''" by simp
  with n show False by (simp add: elements_with_owner_form_def)
qed

lemma css_matches_nth:
  "k < length (css_matches env p sel) \<Longrightarrow> css_matches env p sel ! k \<in> set (descendants p)"
  using nth_mem [of k "css_matches env p sel"] by (simp add: css_matches_def)

lemma select_form_selects:
  assumes nr: "0 \<le> nr" and p: "page (state c) = Some p"
    and k: "nat nr < length (css_matches env p sel)"
    and m: "css_matches env p sel ! nat nr = Tag i n a cs"
    and own: "\<And>form_id. map_of a ''id'' = Some form_id \<Longrightarrow>
                i \<notin> set (top_ids (find_associated_elements p form_id))"
  shows "fst (select_form env c (Selector sel) nr) = Inr (Form i)
       \<and> form (state (snd (select_form env c (Selector sel) nr))) = Some (Form i)"
proof -
  from nr k have "int (length (select env p sel (nr + 1))) = nr + 1"
    using select_length [OF nr, of env p sel] by simp
  moreover from this nr have "select env p sel (nr + 1) \<noteq> []" by auto
  ultimately have r: "resolve_form env c (Selector sel) nr = (Inr (Tag i n a cs), c)"
    using select_last [OF nr k] m p
    by (auto simp: resolve_form_def select_nth_def Let_def split: list.splits)
  show ?thesis
  proof (cases "map_of a ''id''")
    case None
    with r show ?thesis by (simp add: select_form_def set_form_def)
  next
    case (Some form_id)
    from extend_no_error [OF own [OF Some]] obtain p' where
      "extend i (find_associated_elements p form_id) p = (None, p')"
      by (metis prod.collapse)
    with r p Some show ?thesis by (simp add: select_form_def set_form_def)
  qed
qed

lemma select_form_selects_form:
  assumes "0 \<le> nr" and "page (state c) = Some p" and "distinct (tag_ids p)"
    and "nat nr < length (css_matches env p sel)"
    and "css_matches env p sel ! nat nr = Tag i ''form'' a cs"
  shows "fst (select_form env c (Selector sel) nr) = Inr (Form i)
       \<and> form (state (snd (select_form env c (Selector sel) nr))) = Some (Form i)"
proof (rule select_form_selects [OF assms(1,2,4,5)])
  from css_matches_nth [OF assms(4)] assms(5) have "Tag i ''form'' a cs \<in> set (descendants p)"
    by simp
  from form_not_associated [OF assms(3) this]
  show "\<And>form_id. i \<notin> set (top_ids (find_associated_elements p form_id))" .
qed

text \<open>
  C4. For an index \<open>nr\<close> that is not negative, \<^verbatim>\<open>select_form\<close> raises
  \<^verbatim>\<open>LinkNotFoundError\<close> exactly when it is given a tag whose name is not \<^verbatim>\<open>form\<close>, or
  a selector that has fewer than \<open>nr + 1\<close> matches in the page. With at least
  \<open>nr + 1\<close> matches, the call returns the match at index \<open>nr\<close> (in document order)
  and the state holds it as the selected form, provided the match is not one of
  its own associated elements (BeautifulSoup does not append a tag to itself); a
  \<^verbatim>\<open>form\<close> tag never is (\<open>select_form_selects_form\<close>).
\<close>

theorem select_form_not_found:
  assumes "0 \<le> nr"
  shows "(fst (select_form env c selector nr) = Inl LinkNotFoundError) =
           (case selector of
              Handle (Tag i n a cs) \<Rightarrow> n \<noteq> ''form''
            | Handle (NavigableString s) \<Rightarrow>
                (case page (state c) of
                   None \<Rightarrow> False
                 | Some p \<Rightarrow> length (css_matches env p s) < nat nr + 1)
            | Selector s \<Rightarrow>
                (case page (state c) of
                   None \<Rightarrow> False
                 | Some p \<Rightarrow> length (css_matches env p s) < nat nr + 1))
       \<and> (\<forall>s p i n a cs.
            selector = Selector s \<longrightarrow> page (state c) = Some p \<longrightarrow>
            nat nr < length (css_matches env p s) \<longrightarrow>
            css_matches env p s ! nat nr = Tag i n a cs \<longrightarrow>
            (\<forall>form_id. map_of a ''id'' = Some form_id \<longrightarrow>
               i \<notin> set (top_ids (find_associated_elements p form_id))) \<longrightarrow>
              fst (select_form env c selector nr) = Inr (Form i)
              \<and> form (state (snd (select_form env c selector nr))) = Some (Form i))"
proof (intro conjI allI impI)
  show "(fst (select_form env c selector nr) = Inl LinkNotFoundError) =
           (case selector of
              Handle (Tag i n a cs) \<Rightarrow> n \<noteq> ''form''
            | Handle (NavigableString s) \<Rightarrow>
                (case page (state c) of
                   None \<Rightarrow> False
                 | Some p \<Rightarrow> length (css_matches env p s) < nat nr + 1)
            | Selector s \<Rightarrow>
                (case page (state c) of
                   None \<Rightarrow> False
                 | Some p \<Rightarrow> length (css_matches env p s) < nat nr + 1))"
    unfolding select_form_not_found_iff
    using select_nth_not_found [OF assms, of env c]
    by (simp add: resolve_form_def split: selector.splits node.splits)
next
  fix s p i n a cs
  assume "selector = Selector s" "page (state c) = Some p"
    "nat nr < length (css_matches env p s)" "css_matches env p s ! nat nr = Tag i n a cs"
    "\<forall>form_id. map_of a ''id'' = Some form_id \<longrightarrow>
       i \<notin> set (top_ids (find_associated_elements p form_id))"
  then show "fst (select_form env c selector nr) = Inr (Form i)"
    and "form (state (snd (select_form env c selector nr))) = Some (Form i)"
    using select_form_selects [OF assms, of c p env s i n a cs] by simp_all
qed

lemma sample_forms:
  "css_matches sample_site sample_page ''form'' = [Tag 1 ''form'' [(''id'', ''f'')] [Tag 2 ''input'' [(''name'', ''q'')] []]]"
  by (simp add: css_matches_def sample_site_def sample_page_def)

lemma sample_page_distinct: "distinct (tag_ids sample_page)"
  by (simp add: sample_page_def)

lemma at_home_page: "page (state at_home) = Some sample_page"
  by (simp add: at_home_eq BrowserState_def)

lemma sample_descendants:
  "descendants sample_page =
     [Tag 1 ''form'' [(''id'', ''f'')] [Tag 2 ''input'' [(''name'', ''q'')] []],
      Tag 2 ''input'' [(''name'', ''q'')] [],
      Tag 3 ''input'' [(''form'', ''f''), (''name'', ''extra'')] [],
      Tag 4 ''a'' [(''href'', ''/a1'')] [NavigableString ''one''], NavigableString ''one'',
      Tag 5 ''a'' [(''href'', ''/b1'')] [NavigableString ''two''], NavigableString ''two'',
      Tag 6 ''a'' [(''href'', ''/a2'')] [NavigableString ''three''], NavigableString ''three'']"
  by (simp add: sample_page_def)

theorem select_form_not_found_witness:
  "(0::int) \<le> 1
   \<and> length (css_matches sample_site sample_page ''form'') = 1
   \<and> fst (select_form sample_site at_home (Selector ''form'') 1) = Inl LinkNotFoundError
   \<and> fst (select_form sample_site at_home (Handle (Tag 4 ''a'' [(''href'', ''/a1'')] [NavigableString ''one''])) 0)
        = Inl LinkNotFoundError
   \<and> fst (select_form sample_site at_home (Selector ''form'') 0) = Inr (Form 1)
   \<and> form (state (snd (select_form sample_site at_home (Selector ''form'') 0))) = Some (Form 1)"
proof -
  have a: "fst (select_form sample_site at_home (Selector ''form'') 1) = Inl LinkNotFoundError"
    using select_form_not_found [of 1 sample_site at_home "Selector ''form''"]
    by (simp add: at_home_page sample_forms)
  have b: "fst (select_form sample_site at_home (Handle (Tag 4 ''a'' [(''href'', ''/a1'')] [NavigableString ''one''])) 0)
        = Inl LinkNotFoundError"
    using select_form_not_found [of 0 sample_site at_home "Handle (Tag 4 ''a'' [(''href'', ''/a1'')] [NavigableString ''one''])"]
    by simp
  have c: "fst (select_form sample_site at_home (Selector ''form'') 0) = Inr (Form 1)
   \<and> form (state (snd (select_form sample_site at_home (Selector ''form'') 0))) = Some (Form 1)"
    using select_form_not_found [of 0 sample_site at_home "Selector ''form''"]
    by (simp add: at_home_page sample_forms find_associated_elements_def find_all_def
        elements_with_owner_form_def sample_descendants)
  from a b c show ?thesis by (simp add: sample_forms)
qed

subsection \<open>The links of a page\<close>

lemma link_pred:
  "(tag_matches ''a'' [(''href'', AttrPresent)] x
    \<and> (case pattern of None \<Rightarrow> True
        | Some r \<Rightarrow> (case get_attr x ''href'' of Some h \<Rightarrow> re_search env r h | None \<Rightarrow> False))
    \<and> (case wanted of None \<Rightarrow> True | Some w \<Rightarrow> get_text x = w))
   = (case x of
        Tag i n a cs \<Rightarrow>
          n = ''a''
          \<and> (case map_of a ''href'' of
                None \<Rightarrow> False
              | Some h \<Rightarrow> (case pattern of None \<Rightarrow> True | Some r \<Rightarrow> re_search env r h))
          \<and> (case wanted of None \<Rightarrow> True | Some w \<Rightarrow> get_text x = w)
      | NavigableString s \<Rightarrow> False)"
proof (cases x)
  case (Tag i n a cs)
  then show ?thesis
    by (cases "map_of a ''href''"; cases pattern; cases wanted) simp_all
next
  case (NavigableString s)
  then show ?thesis by simp
qed

lemma filter_url_regex_str:
  "filter_url_regex env (case pattern of None \<Rightarrow> PyNone | Some r \<Rightarrow> PyStr r) xs
     = Inr (filter (\<lambda>x. case pattern of None \<Rightarrow> True
                        | Some r \<Rightarrow> (case get_attr x ''href'' of Some h \<Rightarrow> re_search env r h | None \<Rightarrow> False)) xs)"
  by (cases pattern) (simp_all add: filter_url_regex_def)

lemma filter_link_text_str:
  "filter_link_text (case wanted of None \<Rightarrow> PyNone | Some w \<Rightarrow> PyStr w) xs
     = filter (\<lambda>x. case wanted of None \<Rightarrow> True | Some w \<Rightarrow> get_text x = w) xs"
  by (cases wanted) (simp_all add: filter_link_text_def)

text \<open>
  C6. On a page, \<^verbatim>\<open>links(url_regex, link_text)\<close> returns the nodes of the page, in
  document order, that are \<^verbatim>\<open>a\<close> tags with an \<^verbatim>\<open>href\<close> attribute, whose href the
  pattern is found in (when a pattern is given) and whose text equals
  \<^verbatim>\<open>link_text\<close> (when it is given); and no other node.
\<close>

theorem links_exactly:
  assumes "page (state c) = Some p"
  shows "links env c (case pattern of None \<Rightarrow> PyNone | Some r \<Rightarrow> PyStr r)
           (case wanted of None \<Rightarrow> PyNone | Some w \<Rightarrow> PyStr w)
         = Inr (filter
                 (\<lambda>t. case t of
                        Tag i n a cs \<Rightarrow>
                          n = ''a''
                          \<and> (case map_of a ''href'' of
                                None \<Rightarrow> False
                              | Some h \<Rightarrow> (case pattern of None \<Rightarrow> True | Some r \<Rightarrow> re_search env r h))
                          \<and> (case wanted of None \<Rightarrow> True | Some w \<Rightarrow> get_text t = w)
                      | NavigableString s \<Rightarrow> False)
                 (descendants p))"
  using assms
  by (simp only: links_def filter_url_regex_str filter_link_text_str find_all_def
      option.case sum.case filter_filter link_pred [symmetric])
     (auto intro: filter_cong)

theorem links_exactly_witness:
  "page (state at_home) = Some sample_page
   \<and> links sample_site at_home (PyStr ''^/a'') PyNone
       = Inr [Tag 4 ''a'' [(''href'', ''/a1'')] [NavigableString ''one''],
              Tag 6 ''a'' [(''href'', ''/a2'')] [NavigableString ''three'']]
   \<and> links sample_site at_home PyNone (PyStr ''two'')
       = Inr [Tag 5 ''a'' [(''href'', ''/b1'')] [NavigableString ''two'']]"
proof -
  have s: "re_search sample_site = sample_search" by (simp add: sample_site_def)
  have a: "links sample_site at_home (PyStr ''^/a'') PyNone
       = Inr [Tag 4 ''a'' [(''href'', ''/a1'')] [NavigableString ''one''],
              Tag 6 ''a'' [(''href'', ''/a2'')] [NavigableString ''three'']]"
    using links_exactly [OF at_home_page, of sample_site "Some ''^/a''" None]
    by (simp add: sample_descendants s sample_search_def)
  have b: "links sample_site at_home PyNone (PyStr ''two'')
       = Inr [Tag 5 ''a'' [(''href'', ''/b1'')] [NavigableString ''two'']]"
    using links_exactly [OF at_home_page, of sample_site None "Some ''two''"]
    by (simp add: sample_descendants get_text_def)
  from a b at_home_page show ?thesis by simp
qed

subsection \<open>The Referer header\<close>

lemma map_of_cid_setitem:
  "map_of (cid_setitem d k v) l = (if l = lower k then Some (k, v) else map_of d l)"
  by (induction d k v rule: cid_setitem.induct) auto

lemma fst_set_cid_setitem:
  "fst ` set (cid_setitem d k v) = insert (lower k) (fst ` set d)"
  by (induction d k v rule: cid_setitem.induct) auto

lemma cid_wf_setitem: "cid_wf d \<Longrightarrow> cid_wf (cid_setitem d k v)"
proof (induction d k v rule: cid_setitem.induct)
  case (1 k v)
  then show ?case by (simp add: cid_wf_def)
next
  case (2 l kv d k v)
  then show ?case
    using fst_set_cid_setitem [of d k v]
    by (auto simp: cid_wf_def) (metis fst_conv image_eqI)+
qed

lemma cid_wf_foldl:
  "cid_wf acc \<Longrightarrow> cid_wf (foldl (\<lambda>d (k, v). cid_setitem d k v) acc h)"
  by (induction h arbitrary: acc) (auto simp: cid_wf_setitem)

lemma cid_wf_CaseInsensitiveDict: "cid_wf (CaseInsensitiveDict h)"
  unfolding CaseInsensitiveDict_def by (rule cid_wf_foldl) (simp add: cid_wf_def)

lemma cid_setitem_new:
  "lower k \<notin> fst ` set d \<Longrightarrow> cid_setitem d k v = d @ [(lower k, k, v)]"
  by (induction d k v rule: cid_setitem.induct) auto

lemma foldl_cid_items:
  "cid_wf (acc @ d) \<Longrightarrow> foldl (\<lambda>d (k, v). cid_setitem d k v) acc (map snd d) = acc @ d"
proof (induction d arbitrary: acc)
  case Nil
  then show ?case by simp
next
  case (Cons x d)
  obtain l k v where x: "x = (l, k, v)" by (cases x)
  from Cons.prems x have l: "l = lower k" and n: "lower k \<notin> fst ` set acc"
    by (auto simp: cid_wf_def)
  from Cons.prems have "cid_wf ((acc @ [x]) @ d)" by simp
  from Cons.IH [OF this] show ?case
    using cid_setitem_new [OF n, of v] x l by simp
qed

lemma CaseInsensitiveDict_items: "cid_wf d \<Longrightarrow> CaseInsensitiveDict (cid_items d) = d"
  using foldl_cid_items [of "[]" d] by (simp add: CaseInsensitiveDict_def cid_items_def)

lemma cid_contains_referer:
  "cid_contains (CaseInsensitiveDict (headers_of kw)) ''Referer'' = (referer_of kw \<noteq> None)"
  by (simp add: cid_contains_def referer_of_def)

lemma merge_referer_cases:
  "merge_referer c kw =
     (case url (state c) of
        None \<Rightarrow> kw
      | Some r \<Rightarrow>
          if referer_of kw = None
          then kw\<lparr>headers := Some (cid_items (cid_setitem (CaseInsensitiveDict (headers_of kw)) ''Referer'' r))\<rparr>
          else kw)"
  using cid_contains_referer [of kw]
  by (auto simp: merge_referer_def Let_def headers_of_def split: option.splits)

lemma referer_of_added:
  "referer_of (kw\<lparr>headers := Some (cid_items (cid_setitem (CaseInsensitiveDict h) ''Referer'' r))\<rparr>) = Some r"
proof -
  have "cid_wf (cid_setitem (CaseInsensitiveDict h) ''Referer'' r)"
    by (intro cid_wf_setitem cid_wf_CaseInsensitiveDict)
  from CaseInsensitiveDict_items [OF this] show ?thesis
    by (simp add: referer_of_def headers_of_def map_of_cid_setitem)
qed

lemma referer_of_merge_referer:
  "referer_of (merge_referer c kw) = (case referer_of kw of Some v \<Rightarrow> Some v | None \<Rightarrow> url (state c))"
  by (auto simp: merge_referer_cases referer_of_added split: option.splits)

lemma merge_referer_changes:
  "(merge_referer c kw \<noteq> kw) = (url (state c) \<noteq> None \<and> referer_of kw = None)"
proof -
  have "referer_of kw = None \<Longrightarrow> kw\<lparr>headers := Some (cid_items (cid_setitem (CaseInsensitiveDict (headers_of kw)) ''Referer'' r))\<rparr> \<noteq> kw" for r
    using referer_of_added [where kw = kw and h = "headers_of kw" and r = r] by (metis option.distinct(1))
  then show ?thesis
    by (auto simp: merge_referer_cases split: option.splits)
qed


lemma merge_referer_state:
  "state c2 = state c \<Longrightarrow> merge_referer c2 kw = merge_referer c kw"
  by (simp add: merge_referer_def)

lemma filter_url_regex_browser_get:
  "filter_url_regex (env\<lparr>browser_get := g\<rparr>) v xs = filter_url_regex env v xs"
  by (cases "str_of v") (simp_all add: filter_url_regex_def cong: option.case_cong)

lemma filter_url_regex_session_get:
  "filter_url_regex (env\<lparr>session_get := g\<rparr>) v xs = filter_url_regex env v xs"
  by (cases "str_of v") (simp_all add: filter_url_regex_def cong: option.case_cong)

lemma links_kw_browser_get:
  "links_kw (env\<lparr>browser_get := g\<rparr>) c d = links_kw env c d"
  unfolding links_kw_def links_def filter_url_regex_browser_get ..

lemma links_kw_session_get:
  "links_kw (env\<lparr>session_get := g\<rparr>) c d = links_kw env c d"
  unfolding links_kw_def links_def filter_url_regex_session_get ..

lemma find_link_internal_browser_get:
  "find_link_internal (env\<lparr>browser_get := g\<rparr>) c link d = find_link_internal env c link d"
  unfolding find_link_internal_def find_link_def list_links_def links_kw_browser_get ..

lemma find_link_internal_session_get:
  "find_link_internal (env\<lparr>session_get := g\<rparr>) c link d = find_link_internal env c link d"
  unfolding find_link_internal_def find_link_def list_links_def links_kw_session_get ..

lemma submit_selected_kwargs:
  "submit_selected env c btnName update_state kw =
   submit_selected
     (env\<lparr>browser_submit := \<lambda>w p f u k. browser_submit env w p f u (merge_referer c kw)\<rparr>)
     c btnName update_state kw"
  by (simp add: submit_selected_def cong: option.case_cong sum.case_cong)

lemma open_relative_kwargs:
  "open_relative env c2 h k =
   open_relative (env\<lparr>browser_get := \<lambda>w u k'. browser_get env w u k\<rparr>) c2 h k"
  by (simp add: open_relative_def open_url_def absolute_url_def)


lemma follow_link_kwargs:
  "follow_link env c link bs4_kwargs requests_kw kwargs =
   follow_link (env\<lparr>browser_get := \<lambda>w u k. browser_get env w u (merge_referer c requests_kw)\<rparr>)
     c link bs4_kwargs requests_kw kwargs"
proof -
  let ?d = "dict_update (case bs4_kwargs of None \<Rightarrow> follow_link_default c | Some b \<Rightarrow> b) kwargs"
  let ?env = "env\<lparr>browser_get := \<lambda>w u k. browser_get env w u (merge_referer c requests_kw)\<rparr>"
  obtain r c1 d1 where f: "find_link_internal env c link ?d = (r, c1, d1)"
    using prod_cases3 by blast
  then have f': "find_link_internal ?env c link ?d = (r, c1, d1)"
    by (simp only: find_link_internal_browser_get)
  from state_find_link_internal [OF f] have st: "state c1 = state c" .
  have
    m: "\<And>x. merge_referer (c1\<lparr>follow_link_default := x\<rparr>) requests_kw = merge_referer c requests_kw"
       "merge_referer c1 requests_kw = merge_referer c requests_kw"
    by (simp_all add: merge_referer_def st)
  have e: "\<And>c2 h. open_relative ?env c2 h (merge_referer c requests_kw)
                 = open_relative env c2 h (merge_referer c requests_kw)"
    by (simp add: open_relative_def open_url_def absolute_url_def)
  show ?thesis
    using f f'
    by (cases bs4_kwargs; cases r)
       (simp_all add: follow_link_def Let_def m e split: option.splits)
qed

lemma download_link_kwargs:
  "download_link env c link path bs4_kwargs requests_kw kwargs =
   download_link (env\<lparr>session_get := \<lambda>w u k. session_get env w u (merge_referer c requests_kw)\<rparr>)
     c link path bs4_kwargs requests_kw kwargs"
proof -
  let ?d = "dict_update (case bs4_kwargs of None \<Rightarrow> download_link_default c | Some b \<Rightarrow> b) kwargs"
  obtain r c1 d1 where f: "find_link_internal env c link ?d = (r, c1, d1)"
    using prod_cases3 by blast
  from state_find_link_internal [OF f] have st: "state c1 = state c" .
  have
    m: "\<And>x. merge_referer (c1\<lparr>download_link_default := x\<rparr>) requests_kw = merge_referer c requests_kw"
       "merge_referer c1 requests_kw = merge_referer c requests_kw"
    by (simp_all add: merge_referer_def st)
  show ?thesis
    using f
    by (cases bs4_kwargs; cases r)
       (simp_all add: download_link_def find_link_internal_session_get Let_def m absolute_url_def
          split: option.splits
          cong: prod.case_cong sum.case_cong option.case_cong if_cong)
qed

lemma find_link_internal_found:
  "find_link_internal env c link d = (Inr l, c1, d1) \<Longrightarrow> c1 = c"
  unfolding find_link_internal_def Let_def
  by (auto split: if_splits sum.splits option.splits prod.splits)

lemma world_put [simp]: "world (put ev c) = world c"
  by (simp add: put_def)

lemma open_url_sent:
  "browser_get env (world c) u kw = (r, w) \<Longrightarrow>
   fst (open_url env c u kw) = raised r \<and> world (snd (open_url env c u kw)) = w"
  by (cases r) (simp_all add: open_url_def Let_def raised_def)

lemma follow_link_sent:
  assumes f: "find_link_internal env c link
                (dict_update (case bs4_kwargs of None \<Rightarrow> follow_link_default c | Some b \<Rightarrow> b) kwargs)
              = (Inr l, c1, d1)"
    and h: "get_attr l ''href'' = Some h"
    and g: "browser_get env (world c) (absolute_url env c h) (merge_referer c kw) = (r, w)"
  shows "fst (follow_link env c link bs4_kwargs kw kwargs) = raised r
         \<and> world (snd (follow_link env c link bs4_kwargs kw kwargs)) = w"
proof -
  have c1: "c1 = c"
    using find_link_internal_found [OF f] .
  let ?c2 = "case bs4_kwargs of None \<Rightarrow> c\<lparr>follow_link_default := d1\<rparr> | Some b \<Rightarrow> c"
  have e: "follow_link env c link bs4_kwargs kw kwargs
             = open_url env ?c2 (absolute_url env c h) (merge_referer c kw)"
    using f h
    by (cases bs4_kwargs)
       (simp_all add: follow_link_def Let_def c1 open_relative_def absolute_url_def merge_referer_def)
  have w: "world ?c2 = world c"
    by (cases bs4_kwargs) simp_all
  show ?thesis
    unfolding e using open_url_sent [of env ?c2 "absolute_url env c h" "merge_referer c kw" r w] g
    by (simp add: w)
qed

lemma download_link_sent:
  assumes f: "find_link_internal env c link
                (dict_update (case bs4_kwargs of None \<Rightarrow> download_link_default c | Some b \<Rightarrow> b) kwargs)
              = (Inr l, c1, d1)"
    and h: "get_attr l ''href'' = Some h"
    and g: "session_get env (world c) (absolute_url env c h) (merge_referer c kw) = (r, w)"
  shows "fst (download_link env c link path bs4_kwargs kw kwargs) =
           (case r of
              Inl e \<Rightarrow> Inl (Raised e)
            | Inr resp \<Rightarrow>
                if raise_on_404 c \<and> status_code resp = 404 then Inl LinkNotFoundError
                else (case path of
                        None \<Rightarrow> Inr resp
                      | Some pth \<Rightarrow>
                          (case fst (write_file env w pth (content resp)) of
                             Some e \<Rightarrow> Inl (Raised e)
                           | None \<Rightarrow> Inr resp)))
         \<and> world (snd (download_link env c link path bs4_kwargs kw kwargs)) =
           (case (r, path) of
              (Inr resp, Some pth) \<Rightarrow>
                if raise_on_404 c \<and> status_code resp = 404 then w
                else snd (write_file env w pth (content resp))
            | _ \<Rightarrow> w)"
proof -
  have c1: "c1 = c"
    using find_link_internal_found [OF f] .
  show ?thesis
    using f h g
    by (cases bs4_kwargs; cases r; cases path)
       (simp_all add: download_link_def Let_def c1 absolute_url_def merge_referer_def
          split: prod.splits option.splits)
qed

text \<open>
  C7. The Referer among the headers that \<^verbatim>\<open>_merge_referer\<close> returns is the caller's
  own when the caller set one under any capitalisation, and the URL of the current
  state otherwise (none when the state has no URL); the keyword arguments change
  exactly when the state has a URL and the caller set no Referer.
  \<^verbatim>\<open>submit_selected\<close>, \<^verbatim>\<open>follow_link\<close> and \<^verbatim>\<open>download_link\<close> hand these merged
  arguments to \<^verbatim>\<open>Browser.submit\<close>, \<^verbatim>\<open>Browser.get\<close> and \<^verbatim>\<open>session.get\<close>: each call
  behaves the same with a transport that takes the merged arguments of the call
  whatever it is given. And each of them sends its request: once the form is
  selected and \<^verbatim>\<open>choose_submit\<close> has returned, or once the link is found with its
  \<^verbatim>\<open>href\<close>, the outcome of the call and the world after it are those of the
  transport called in the world of the browser with the merged arguments (for
  \<^verbatim>\<open>download_link\<close>, followed by the 404 check and the writing of the file).
\<close>

theorem referer_merged:
  "referer_of (merge_referer c kw) = (case referer_of kw of Some v \<Rightarrow> Some v | None \<Rightarrow> url (state c))
   \<and> (merge_referer c kw \<noteq> kw) = (url (state c) \<noteq> None \<and> referer_of kw = None)
   \<and> submit_selected env c btnName update_state kw =
       submit_selected
         (env\<lparr>browser_submit := \<lambda>w p f u k. browser_submit env w p f u (merge_referer c kw)\<rparr>)
         c btnName update_state kw
   \<and> follow_link env c link bs4_kwargs kw kwargs =
       follow_link (env\<lparr>browser_get := \<lambda>w u k. browser_get env w u (merge_referer c kw)\<rparr>)
         c link bs4_kwargs kw kwargs
   \<and> download_link env c link path bs4_kwargs kw kwargs =
       download_link (env\<lparr>session_get := \<lambda>w u k. session_get env w u (merge_referer c kw)\<rparr>)
         c link path bs4_kwargs kw kwargs
   \<and> (\<forall>f p1 f1 r w p2 f2.
         form (state c) = Some f \<longrightarrow>
         choose_submit env (page (state c)) f btnName = (None, p1, f1) \<longrightarrow>
         browser_submit env (world c) p1 f1 (url (state c)) (merge_referer c kw)
           = (r, w, p2, f2) \<longrightarrow>
         fst (submit_selected env c btnName update_state kw) = raised r
         \<and> world (snd (submit_selected env c btnName update_state kw)) = w)
   \<and> (\<forall>l c1 d1 h r w.
         find_link_internal env c link
           (dict_update (case bs4_kwargs of None \<Rightarrow> follow_link_default c | Some b \<Rightarrow> b) kwargs)
           = (Inr l, c1, d1) \<longrightarrow>
         get_attr l ''href'' = Some h \<longrightarrow>
         browser_get env (world c) (absolute_url env c h) (merge_referer c kw) = (r, w) \<longrightarrow>
         fst (follow_link env c link bs4_kwargs kw kwargs) = raised r
         \<and> world (snd (follow_link env c link bs4_kwargs kw kwargs)) = w)
   \<and> (\<forall>l c1 d1 h r w.
         find_link_internal env c link
           (dict_update (case bs4_kwargs of None \<Rightarrow> download_link_default c | Some b \<Rightarrow> b) kwargs)
           = (Inr l, c1, d1) \<longrightarrow>
         get_attr l ''href'' = Some h \<longrightarrow>
         session_get env (world c) (absolute_url env c h) (merge_referer c kw) = (r, w) \<longrightarrow>
         fst (download_link env c link path bs4_kwargs kw kwargs) =
           (case r of
              Inl e \<Rightarrow> Inl (Raised e)
            | Inr resp \<Rightarrow>
                if raise_on_404 c \<and> status_code resp = 404 then Inl LinkNotFoundError
                else (case path of
                        None \<Rightarrow> Inr resp
                      | Some pth \<Rightarrow>
                          (case fst (write_file env w pth (content resp)) of
                             Some e \<Rightarrow> Inl (Raised e)
                           | None \<Rightarrow> Inr resp)))
         \<and> world (snd (download_link env c link path bs4_kwargs kw kwargs)) =
           (case (r, path) of
              (Inr resp, Some pth) \<Rightarrow>
                if raise_on_404 c \<and> status_code resp = 404 then w
                else snd (write_file env w pth (content resp))
            | _ \<Rightarrow> w))"
proof (intro conjI allI impI)
  show "referer_of (merge_referer c kw)
          = (case referer_of kw of Some v \<Rightarrow> Some v | None \<Rightarrow> url (state c))"
    by (rule referer_of_merge_referer)
  show "(merge_referer c kw \<noteq> kw) = (url (state c) \<noteq> None \<and> referer_of kw = None)"
    by (rule merge_referer_changes)
  show "submit_selected env c btnName update_state kw =
       submit_selected
         (env\<lparr>browser_submit := \<lambda>w p f u k. browser_submit env w p f u (merge_referer c kw)\<rparr>)
         c btnName update_state kw"
    by (rule submit_selected_kwargs)
  show "follow_link env c link bs4_kwargs kw kwargs =
       follow_link (env\<lparr>browser_get := \<lambda>w u k. browser_get env w u (merge_referer c kw)\<rparr>)
         c link bs4_kwargs kw kwargs"
    by (rule follow_link_kwargs)
  show "download_link env c link path bs4_kwargs kw kwargs =
       download_link (env\<lparr>session_get := \<lambda>w u k. session_get env w u (merge_referer c kw)\<rparr>)
         c link path bs4_kwargs kw kwargs"
    by (rule download_link_kwargs)
next
  fix f p1 f1 r w p2 f2
  assume a: "form (state c) = Some f"
    "choose_submit env (page (state c)) f btnName = (None, p1, f1)"
    "browser_submit env (world c) p1 f1 (url (state c)) (merge_referer c kw) = (r, w, p2, f2)"
  show "fst (submit_selected env c btnName update_state kw) = raised r"
    by (cases r) (simp_all add: submit_selected_sent [OF a] raised_def)
  show "world (snd (submit_selected env c btnName update_state kw)) = w"
    by (cases r) (simp_all add: submit_selected_sent [OF a])
next
  fix l c1 d1 h r w
  assume a: "find_link_internal env c link
           (dict_update (case bs4_kwargs of None \<Rightarrow> follow_link_default c | Some b \<Rightarrow> b) kwargs)
           = (Inr l, c1, d1)"
    "get_attr l ''href'' = Some h"
    "browser_get env (world c) (absolute_url env c h) (merge_referer c kw) = (r, w)"
  show "fst (follow_link env c link bs4_kwargs kw kwargs) = raised r"
    using follow_link_sent [OF a] by simp
  show "world (snd (follow_link env c link bs4_kwargs kw kwargs)) = w"
    using follow_link_sent [OF a] by simp
next
  fix l c1 d1 h r w
  assume a: "find_link_internal env c link
           (dict_update (case bs4_kwargs of None \<Rightarrow> download_link_default c | Some b \<Rightarrow> b) kwargs)
           = (Inr l, c1, d1)"
    "get_attr l ''href'' = Some h"
    "session_get env (world c) (absolute_url env c h) (merge_referer c kw) = (r, w)"
  show "fst (download_link env c link path bs4_kwargs kw kwargs) =
           (case r of
              Inl e \<Rightarrow> Inl (Raised e)
            | Inr resp \<Rightarrow>
                if raise_on_404 c \<and> status_code resp = 404 then Inl LinkNotFoundError
                else (case path of
                        None \<Rightarrow> Inr resp
                      | Some pth \<Rightarrow>
                          (case fst (write_file env w pth (content resp)) of
                             Some e \<Rightarrow> Inl (Raised e)
                           | None \<Rightarrow> Inr resp)))"
    using download_link_sent [OF a, of path] by (rule conjunct1)
  show "world (snd (download_link env c link path bs4_kwargs kw kwargs)) =
           (case (r, path) of
              (Inr resp, Some pth) \<Rightarrow>
                if raise_on_404 c \<and> status_code resp = 404 then w
                else snd (write_file env w pth (content resp))
            | _ \<Rightarrow> w)"
    using download_link_sent [OF a, of path] by (rule conjunct2)
qed

lemma lower_Referer: "lower ''Referer'' = ''referer''" "lower ''referer'' = ''referer''"
  by (simp_all add: lower_def lower_char_def)

lemma at_home_url: "url (state at_home) = Some ''/home/index.html''"
  by (simp add: at_home_eq BrowserState_def)

lemma sample_find_b:
  "find_link_internal sample_site at_home (PyStr ''^/b'') empty_kwargs
     = (Inr (Tag 5 ''a'' [(''href'', ''/b1'')] [NavigableString ''two'']), at_home,
        \<lparr>url_regex = Some (PyStr ''^/b''), link_text = None\<rparr>)"
proof -
  have "links sample_site at_home (PyStr ''^/b'') PyNone
       = Inr [Tag 5 ''a'' [(''href'', ''/b1'')] [NavigableString ''two'']]"
    by (simp add: links_def at_home_page find_all_def sample_descendants filter_url_regex_def
        filter_link_text_def sample_site_def sample_search_def)
  then show ?thesis
    by (simp add: find_link_internal_def find_link_def links_kw_def empty_kwargs_def)
qed

lemma with_form_fields:
  "form (state with_form) = Some (Form 1)"
  "page (state with_form) = Some moved_page"
  "url (state with_form) = Some ''/home/index.html''"
  "world with_form = [(''/home'', [])]"
  by (simp_all add: with_form_def at_home_eq BrowserState_def new_browser_def init_def)

lemma merge_referer_home:
  "url (state c) = Some ''/home/index.html'' \<Longrightarrow>
   merge_referer c no_kwargs
     = \<lparr>headers = Some [(''Referer'', ''/home/index.html'')], other_kwargs = []\<rparr>"
  by (simp add: merge_referer_def no_kwargs_def CaseInsensitiveDict_def
        cid_contains_def cid_items_def lower_Referer)

lemma sample_submit:
  "browser_submit sample_site w p f u \<lparr>headers = Some hs, other_kwargs = []\<rparr>
     = (Inr (sample_response ''/submitted'' hs), w @ [(''/submitted'', hs)], p, f)"
  by (simp add: sample_site_def headers_of_def)

lemma at_home_fields:
  "world at_home = [(''/home'', [])]"
  "follow_link_default at_home = empty_kwargs"
  "download_link_default at_home = empty_kwargs"
  "raise_on_404 at_home"
  by (simp_all add: at_home_eq new_browser_def init_def)

lemma sample_get:
  "browser_get sample_site w u \<lparr>headers = Some hs, other_kwargs = []\<rparr>
     = (Inr (sample_response u hs), w @ [(u, hs)])"
  "session_get sample_site w u \<lparr>headers = Some hs, other_kwargs = []\<rparr>
     = (Inr (sample_response u hs), w @ [(u, hs)])"
  "absolute_url sample_site c u = u"
  by (simp_all add: sample_site_def headers_of_def absolute_url_def)

lemma sample_choose_none:
  "choose_submit sample_site p f Btn_None = (None, p, f)"
  by (simp add: sample_site_def sample_choose_submit_def)

theorem referer_merged_witness:
  "referer_of (merge_referer at_home no_kwargs) = Some ''/home/index.html''
   \<and> referer_of (merge_referer at_home \<lparr>headers = Some [(''referer'', ''/elsewhere'')], other_kwargs = []\<rparr>)
       = Some ''/elsewhere''
   \<and> referer_of (merge_referer new_browser no_kwargs) = None
   \<and> world (snd (submit_selected sample_site with_form Btn_None True no_kwargs))
       = [(''/home'', []), (''/submitted'', [(''Referer'', ''/home/index.html'')])]
   \<and> world (snd (follow_link sample_site at_home (PyStr ''^/b'') None no_kwargs empty_kwargs))
       = [(''/home'', []), (''/b1'', [(''Referer'', ''/home/index.html'')])]
   \<and> world (snd (download_link sample_site at_home (PyStr ''^/b'') None None no_kwargs empty_kwargs))
       = [(''/home'', []), (''/b1'', [(''Referer'', ''/home/index.html'')])]
   \<and> world (snd (download_link sample_site at_home (PyStr ''^/b'') None None
                    \<lparr>headers = Some [(''referer'', ''/elsewhere'')], other_kwargs = []\<rparr> empty_kwargs))
       = [(''/home'', []), (''/b1'', [(''referer'', ''/elsewhere'')])]"
proof -
  let ?own = "\<lparr>headers = Some [(''referer'', ''/elsewhere'')], other_kwargs = []\<rparr>"
  let ?b = "Tag 5 ''a'' [(''href'', ''/b1'')] [NavigableString ''two'']"
  let ?d = "\<lparr>url_regex = Some (PyStr ''^/b''), link_text = None\<rparr>"
  have n: "referer_of no_kwargs = None"
    by (simp add: referer_of_def headers_of_def no_kwargs_def CaseInsensitiveDict_def)
  have e: "referer_of ?own = Some ''/elsewhere''"
    by (simp add: referer_of_def headers_of_def CaseInsensitiveDict_def lower_Referer)
  have u: "url (state new_browser) = None"
    by (simp add: new_browser_def init_def)
  have m: "merge_referer at_home ?own = ?own"
    by (simp add: merge_referer_def at_home_url CaseInsensitiveDict_def cid_contains_def
        lower_Referer)
  have a: "referer_of (merge_referer at_home no_kwargs) = Some ''/home/index.html''"
    using referer_merged [of at_home no_kwargs] by (simp add: n at_home_url)
  have b: "referer_of (merge_referer at_home ?own) = Some ''/elsewhere''"
    using referer_merged [of at_home ?own] by (simp add: e)
  have c: "referer_of (merge_referer new_browser no_kwargs) = None"
    using referer_merged [of new_browser no_kwargs] by (simp add: n u)
  have s1: "form (state with_form) = Some (Form 1)"
    by (simp add: with_form_fields)
  have s2: "choose_submit sample_site (page (state with_form)) (Form 1) Btn_None
              = (None, Some moved_page, Form 1)"
    by (simp add: with_form_fields sample_choose_none)
  have s3: "browser_submit sample_site (world with_form) (Some moved_page) (Form 1)
              (url (state with_form)) (merge_referer with_form no_kwargs)
            = (Inr (sample_response ''/submitted'' [(''Referer'', ''/home/index.html'')]),
               [(''/home'', []), (''/submitted'', [(''Referer'', ''/home/index.html'')])],
               Some moved_page, Form 1)"
    by (simp add: merge_referer_home with_form_fields sample_submit)
  have s: "world (snd (submit_selected sample_site with_form Btn_None True no_kwargs))
             = [(''/home'', []), (''/submitted'', [(''Referer'', ''/home/index.html'')])]"
    using referer_merged [where env = sample_site and c = with_form and kw = no_kwargs
        and btnName = Btn_None and update_state = True,
        THEN conjunct2, THEN conjunct2, THEN conjunct2, THEN conjunct2, THEN conjunct2,
        THEN conjunct1, rule_format, OF s1 s2 s3]
    by (rule conjunct2)
  have f1: "find_link_internal sample_site at_home (PyStr ''^/b'')
              (dict_update (case None of None \<Rightarrow> follow_link_default at_home | Some b \<Rightarrow> b)
                 empty_kwargs) = (Inr ?b, at_home, ?d)"
    using sample_find_b by (simp add: at_home_fields dict_update_def empty_kwargs_def)
  have f2: "find_link_internal sample_site at_home (PyStr ''^/b'')
              (dict_update (case None of None \<Rightarrow> download_link_default at_home | Some b \<Rightarrow> b)
                 empty_kwargs) = (Inr ?b, at_home, ?d)"
    using sample_find_b by (simp add: at_home_fields dict_update_def empty_kwargs_def)
  have h: "get_attr ?b ''href'' = Some ''/b1''"
    by simp
  have g1: "browser_get sample_site (world at_home) (absolute_url sample_site at_home ''/b1'')
              (merge_referer at_home no_kwargs)
            = (Inr (sample_response ''/b1'' [(''Referer'', ''/home/index.html'')]),
               [(''/home'', []), (''/b1'', [(''Referer'', ''/home/index.html'')])])"
    by (simp add: merge_referer_home at_home_url at_home_fields sample_get)
  have g2: "session_get sample_site (world at_home) (absolute_url sample_site at_home ''/b1'')
              (merge_referer at_home no_kwargs)
            = (Inr (sample_response ''/b1'' [(''Referer'', ''/home/index.html'')]),
               [(''/home'', []), (''/b1'', [(''Referer'', ''/home/index.html'')])])"
    by (simp add: merge_referer_home at_home_url at_home_fields sample_get)
  have g3: "session_get sample_site (world at_home) (absolute_url sample_site at_home ''/b1'')
              (merge_referer at_home ?own)
            = (Inr (sample_response ''/b1'' [(''referer'', ''/elsewhere'')]),
               [(''/home'', []), (''/b1'', [(''referer'', ''/elsewhere'')])])"
    by (simp add: m at_home_fields sample_get)
  have fl: "world (snd (follow_link sample_site at_home (PyStr ''^/b'') None no_kwargs empty_kwargs))
       = [(''/home'', []), (''/b1'', [(''Referer'', ''/home/index.html'')])]"
    using referer_merged [where env = sample_site and c = at_home and kw = no_kwargs
        and link = "PyStr ''^/b''" and bs4_kwargs = None and kwargs = empty_kwargs,
        THEN conjunct2, THEN conjunct2, THEN conjunct2, THEN conjunct2, THEN conjunct2,
        THEN conjunct2, THEN conjunct1, rule_format, OF f1 h g1]
    by (rule conjunct2)
  have d1: "world (snd (download_link sample_site at_home (PyStr ''^/b'') None None no_kwargs
                          empty_kwargs))
       = [(''/home'', []), (''/b1'', [(''Referer'', ''/home/index.html'')])]"
    using referer_merged [where env = sample_site and c = at_home and kw = no_kwargs
        and link = "PyStr ''^/b''" and bs4_kwargs = None and kwargs = empty_kwargs
        and path = None,
        THEN conjunct2, THEN conjunct2, THEN conjunct2, THEN conjunct2, THEN conjunct2,
        THEN conjunct2, THEN conjunct2, rule_format, OF f2 h g2]
    by simp
  have d2: "world (snd (download_link sample_site at_home (PyStr ''^/b'') None None ?own
                          empty_kwargs))
       = [(''/home'', []), (''/b1'', [(''referer'', ''/elsewhere'')])]"
    using referer_merged [where env = sample_site and c = at_home and kw = ?own
        and link = "PyStr ''^/b''" and bs4_kwargs = None and kwargs = empty_kwargs
        and path = None,
        THEN conjunct2, THEN conjunct2, THEN conjunct2, THEN conjunct2, THEN conjunct2,
        THEN conjunct2, THEN conjunct2, rule_format, OF f2 h g3]
    by simp
  from a b c s fl d1 d2 show ?thesis by blast
qed

subsection \<open>A submission that keeps the state\<close>



subsection \<open>Moving a tag inside a tree\<close>

lemma find_tag_ids_subset:
  "find_tag i p = Some e \<Longrightarrow> set (tag_ids e) \<subseteq> set (tag_ids p)"
  "find_tag_list i ds = Some e \<Longrightarrow> set (tag_ids e) \<subseteq> set (tag_ids_list ds)"
  by (induction i p and i ds rule: find_tag_find_tag_list.induct)
     (auto split: option.splits if_splits)

lemma find_tag_list_append:
  "find_tag_list j (xs @ ys) =
     (case find_tag_list j xs of Some t \<Rightarrow> Some t | None \<Rightarrow> find_tag_list j ys)"
  by (induction xs) (auto split: option.splits)

lemma find_tag_below:
  "distinct (tag_ids p) \<Longrightarrow> find_tag i p = Some e \<Longrightarrow> j \<in> set (tag_ids e) \<Longrightarrow>
     find_tag j p = find_tag j e"
  "distinct (tag_ids_list ds) \<Longrightarrow> find_tag_list i ds = Some e \<Longrightarrow> j \<in> set (tag_ids e) \<Longrightarrow>
     find_tag_list j ds = find_tag j e"
proof (induction i p and i ds rule: find_tag_find_tag_list.induct)
  case (1 i k n a cs)
  show ?case
  proof (cases "k = i")
    case True
    with "1.prems" show ?thesis by simp
  next
    case False
    with "1.prems" have f: "find_tag_list i cs = Some e" by simp
    from find_tag_ids_subset(2) [OF f] "1.prems"(1,3) have "j \<noteq> k" by auto
    with "1.IH" [OF False] "1.prems" f show ?thesis by simp
  qed
next
  case (2 i s)
  then show ?case by simp
next
  case (3 i)
  then show ?case by simp
next
  case (4 i c cs)
  from "4.prems"(1) have dc: "distinct (tag_ids c)" and dd: "distinct (tag_ids_list cs)"
    and disj: "set (tag_ids c) \<inter> set (tag_ids_list cs) = {}" by auto
  show ?case
  proof (cases "find_tag i c")
    case None
    with "4.prems" have f: "find_tag_list i cs = Some e" by simp
    from find_tag_ids_subset(2) [OF f] "4.prems"(3) disj have "j \<notin> set (tag_ids c)" by auto
    then have "find_tag j c = None" by (simp add: find_tag_None_iff)
    with "4.IH"(2) [OF None dd f "4.prems"(3)] show ?thesis by simp
  next
    case (Some t)
    with "4.prems" have te: "t = e" by simp
    from "4.IH"(1) [OF dc Some [unfolded te] "4.prems"(3)] have "find_tag j c = find_tag j e" .
    moreover have "find_tag j e \<noteq> None" using "4.prems"(3) by (simp add: find_tag_None_iff)
    ultimately show ?thesis by (auto split: option.splits)
  qed
qed

lemma extract_tag_absent:
  "i \<notin> set (tag_ids_list (contents p)) \<Longrightarrow> is_tag p \<Longrightarrow> extract_tag i p = p"
  "i \<notin> set (tag_ids_list ds) \<Longrightarrow> extract_tag_list i ds = ds"
  by (induction i p and i ds rule: extract_tag_extract_tag_list.induct) auto

lemma append_child_absent:
  "f \<notin> set (tag_ids q) \<Longrightarrow> append_child f e q = q"
  "f \<notin> set (tag_ids_list ds) \<Longrightarrow> append_child_list f e ds = ds"
  by (induction f e q and f e ds rule: append_child_append_child_list.induct) auto

lemma tag_ids_extract:
  "distinct (tag_ids p) \<Longrightarrow> is_tag p \<Longrightarrow> nid p \<noteq> i \<Longrightarrow>
     tag_ids (extract_tag i p) =
       filter (\<lambda>j. j \<notin> (case find_tag i p of None \<Rightarrow> {} | Some e \<Rightarrow> set (tag_ids e))) (tag_ids p)"
  "distinct (tag_ids_list ds) \<Longrightarrow>
     tag_ids_list (extract_tag_list i ds) =
       filter (\<lambda>j. j \<notin> (case find_tag_list i ds of None \<Rightarrow> {} | Some e \<Rightarrow> set (tag_ids e)))
         (tag_ids_list ds)"
proof (induction i p and i ds rule: extract_tag_extract_tag_list.induct)
  case (1 i k n a cs)
  then have d: "distinct (tag_ids_list cs)" and k: "k \<notin> set (tag_ids_list cs)" and ki: "k \<noteq> i"
    by auto
  have "k \<notin> (case find_tag_list i cs of None \<Rightarrow> {} | Some e \<Rightarrow> set (tag_ids e))"
    using k find_tag_ids_subset(2) [of i cs] by (auto split: option.splits)
  with "1.IH" [OF d] ki show ?case by simp
next
  case (2 i s)
  then show ?case by simp
next
  case (3 i)
  then show ?case by simp
next
  case (4 i k n a cs ds)
  let ?c = "Tag k n a cs"
  from "4.prems" have dc: "distinct (tag_ids ?c)" and dd: "distinct (tag_ids_list ds)"
    and disj: "set (tag_ids ?c) \<inter> set (tag_ids_list ds) = {}" by auto
  show ?case
  proof (cases "k = i")
    case True
    then have "i \<notin> set (tag_ids_list ds)" using disj by auto
    then have e: "extract_tag_list i ds = ds" by (rule extract_tag_absent(2))
    have "filter (\<lambda>j. j \<notin> set (tag_ids ?c)) (tag_ids ?c @ tag_ids_list ds) = tag_ids_list ds"
      using disj by (auto simp: filter_id_conv filter_empty_conv simp del: tag_ids.simps)
    with True e show ?thesis by simp
  next
    case False
    show ?thesis
    proof (cases "find_tag_list i cs")
      case None
      then have "i \<notin> set (tag_ids_list cs)" by (simp add: find_tag_None_iff)
      then have ec: "extract_tag_list i cs = cs" by (rule extract_tag_absent(2))
      have sub: "(case find_tag_list i ds of None \<Rightarrow> {} | Some e \<Rightarrow> set (tag_ids e)) \<subseteq> set (tag_ids_list ds)"
        using find_tag_ids_subset(2) [of i ds] by (auto split: option.splits)
      from sub disj have k: "k \<notin> (case find_tag_list i ds of None \<Rightarrow> {} | Some e \<Rightarrow> set (tag_ids e))"
        by auto
      from sub disj have "filter (\<lambda>j. j \<notin> (case find_tag_list i ds of None \<Rightarrow> {} | Some e \<Rightarrow> set (tag_ids e))) (tag_ids_list cs) = tag_ids_list cs"
        by (intro filter_True) auto
      with "4.IH"(3) [OF False dd] False None ec k show ?thesis by simp
    next
      case (Some e)
      from find_tag_ids_subset(2) [OF Some] have sub: "set (tag_ids e) \<subseteq> set (tag_ids_list cs)" .
      have "i \<in> set (tag_ids_list cs)" using Some by (metis find_tag_None_iff(2) option.distinct(1))
      with disj have "i \<notin> set (tag_ids_list ds)" by auto
      then have ed: "extract_tag_list i ds = ds" by (rule extract_tag_absent(2))
      from sub disj have fd: "filter (\<lambda>j. j \<notin> set (tag_ids e)) (tag_ids_list ds) = tag_ids_list ds"
        by (auto simp: filter_id_conv)
      from "4.prems" sub have k: "k \<notin> set (tag_ids e)" by auto
      from "4.IH"(2) [OF False dc] False Some
      have "tag_ids_list (extract_tag_list i cs) = filter (\<lambda>j. j \<notin> set (tag_ids e)) (tag_ids_list cs)"
        using k by simp
      with False Some ed fd k show ?thesis by simp
    qed
  qed
next
  case (5 i s ds)
  then show ?case by simp
qed

lemma extract_tag_found:
  "find_tag j x = Some t \<Longrightarrow> i \<notin> set (tag_ids x) \<Longrightarrow> extract_tag i t = t"
proof -
  assume a: "find_tag j x = Some t" and b: "i \<notin> set (tag_ids x)"
  from find_tag_ids_subset(1) [OF a] b have "i \<notin> set (tag_ids t)" by auto
  moreover from find_tag_Some_id(1) [OF a] obtain n at cs where "t = Tag j n at cs" by auto
  ultimately show ?thesis using extract_tag_absent(2) [of i cs] by simp
qed

lemma extract_tag_found_list:
  "find_tag_list j ds = Some t \<Longrightarrow> i \<notin> set (tag_ids_list ds) \<Longrightarrow> extract_tag i t = t"
proof -
  assume a: "find_tag_list j ds = Some t" and b: "i \<notin> set (tag_ids_list ds)"
  from find_tag_ids_subset(2) [OF a] b have "i \<notin> set (tag_ids t)" by auto
  moreover from find_tag_Some_id(2) [OF a] obtain n at cs where "t = Tag j n at cs" by auto
  ultimately show ?thesis using extract_tag_absent(2) [of i cs] by simp
qed

lemma map_option_extract_absent:
  "i \<notin> set (tag_ids_list ds) \<Longrightarrow>
     map_option (extract_tag i) (find_tag_list j ds) = find_tag_list j ds"
  by (cases "find_tag_list j ds") (auto dest: extract_tag_found_list)

lemma find_tag_extract:
  "distinct (tag_ids p) \<Longrightarrow> is_tag p \<Longrightarrow> nid p \<noteq> i \<Longrightarrow>
   j \<notin> (case find_tag i p of None \<Rightarrow> {} | Some e \<Rightarrow> set (tag_ids e)) \<Longrightarrow>
     find_tag j (extract_tag i p) = map_option (extract_tag i) (find_tag j p)"
  "distinct (tag_ids_list ds) \<Longrightarrow>
   j \<notin> (case find_tag_list i ds of None \<Rightarrow> {} | Some e \<Rightarrow> set (tag_ids e)) \<Longrightarrow>
     find_tag_list j (extract_tag_list i ds) = map_option (extract_tag i) (find_tag_list j ds)"
proof (induction i p and i ds rule: extract_tag_extract_tag_list.induct)
  case (1 i k n a cs)
  then show ?case by auto
next
  case (2 i s)
  then show ?case by simp
next
  case (3 i)
  then show ?case by simp
next
  case (4 i k n a cs ds)
  let ?c = "Tag k n a cs"
  from "4.prems" have dc: "distinct (tag_ids ?c)" and dd: "distinct (tag_ids_list ds)"
    and disj: "set (tag_ids ?c) \<inter> set (tag_ids_list ds) = {}" by auto
  show ?case
  proof (cases "k = i")
    case True
    then have ni: "i \<notin> set (tag_ids_list ds)" using disj by auto
    then have e: "extract_tag_list i ds = ds" by (rule extract_tag_absent(2))
    from True "4.prems"(2) have "j \<notin> set (tag_ids ?c)" by simp
    then have "find_tag j ?c = None" by (simp only: find_tag_None_iff not_False_eq_True)
    then have "find_tag_list j (?c # ds) = find_tag_list j ds" by simp
    with True e map_option_extract_absent [OF ni, of j] show ?thesis by simp
  next
    case False
    show ?thesis
    proof (cases "find_tag_list i cs")
      case None
      then have ic: "i \<notin> set (tag_ids ?c)" using False by (simp add: find_tag_None_iff)
      then have ec: "extract_tag_list i cs = cs" by (intro extract_tag_absent(2)) simp
      from None False have fi: "find_tag_list i (?c # ds) = find_tag_list i ds" by simp
      show ?thesis
      proof (cases "find_tag j ?c")
        case None
        with "4.IH"(3) [OF False dd] "4.prems"(2) fi False ec show ?thesis by simp
      next
        case (Some t)
        from extract_tag_found [OF Some ic] Some False ec show ?thesis by simp
      qed
    next
      case (Some e)
      have "i \<in> set (tag_ids_list cs)" using Some by (metis find_tag_None_iff(2) option.distinct(1))
      with disj have ni: "i \<notin> set (tag_ids_list ds)" by auto
      then have ed: "extract_tag_list i ds = ds" by (rule extract_tag_absent(2))
      from Some False "4.prems"(2) have j: "j \<notin> (case find_tag i ?c of None \<Rightarrow> {} | Some e \<Rightarrow> set (tag_ids e))"
        by simp
      from "4.IH"(2) [OF False dc _ _ j] False
      have "find_tag j (extract_tag i ?c) = map_option (extract_tag i) (find_tag j ?c)" by simp
      with False ed map_option_extract_absent [OF ni, of j] show ?thesis
        by (cases "find_tag j ?c") simp_all
    qed
  qed
next
  case (5 i s ds)
  then show ?case by simp
qed

lemma tag_ids_list_append [simp]:
  "tag_ids_list (xs @ ys) = tag_ids_list xs @ tag_ids_list ys"
  by (induction xs) simp_all

lemma tag_ids_append_child:
  "distinct (tag_ids q) \<Longrightarrow> f \<in> set (tag_ids q) \<Longrightarrow> distinct (tag_ids e) \<Longrightarrow>
   set (tag_ids e) \<inter> set (tag_ids q) = {} \<Longrightarrow>
     distinct (tag_ids (append_child f e q))
     \<and> set (tag_ids (append_child f e q)) = set (tag_ids q) \<union> set (tag_ids e)"
  "distinct (tag_ids_list ds) \<Longrightarrow> f \<in> set (tag_ids_list ds) \<Longrightarrow> distinct (tag_ids e) \<Longrightarrow>
   set (tag_ids e) \<inter> set (tag_ids_list ds) = {} \<Longrightarrow>
     distinct (tag_ids_list (append_child_list f e ds))
     \<and> set (tag_ids_list (append_child_list f e ds)) = set (tag_ids_list ds) \<union> set (tag_ids e)"
proof (induction f e q and f e ds rule: append_child_append_child_list.induct)
  case (1 f e k n a cs)
  show ?case
  proof (cases "k = f")
    case True
    with "1.prems" show ?thesis by auto
  next
    case False
    with "1.prems" have "distinct (tag_ids_list cs)" "f \<in> set (tag_ids_list cs)"
      "set (tag_ids e) \<inter> set (tag_ids_list cs) = {}" by auto
    from "1.IH" [OF False this(1,2) "1.prems"(3) this(3)] False "1.prems" show ?thesis by auto
  qed
next
  case (2 f e s)
  then show ?case by simp
next
  case (3 f e)
  then show ?case by simp
next
  case (4 f e c cs)
  from "4.prems" have dc: "distinct (tag_ids c)" and dd: "distinct (tag_ids_list cs)"
    and disj: "set (tag_ids c) \<inter> set (tag_ids_list cs) = {}"
    and ec: "set (tag_ids e) \<inter> set (tag_ids c) = {}"
    and ed: "set (tag_ids e) \<inter> set (tag_ids_list cs) = {}" by auto
  show ?case
  proof (cases "f \<in> set (tag_ids c)")
    case True
    with disj have "f \<notin> set (tag_ids_list cs)" by auto
    then have u: "append_child_list f e cs = cs" by (rule append_child_absent(2))
    from "4.IH"(1) [OF dc True "4.prems"(3) ec] u dd disj ed show ?thesis by auto
  next
    case False
    then have u: "append_child f e c = c" by (rule append_child_absent(1))
    from False "4.prems"(2) have "f \<in> set (tag_ids_list cs)" by simp
    from "4.IH"(2) [OF dd this "4.prems"(3) ed] u dc disj ec show ?thesis by auto
  qed
qed

lemma find_tag_append_child_self:
  "find_tag f q = Some (Tag f n a cs) \<Longrightarrow>
     find_tag f (append_child f e q) = Some (Tag f n a (cs @ [e]))"
  "find_tag_list f ds = Some (Tag f n a cs) \<Longrightarrow>
     find_tag_list f (append_child_list f e ds) = Some (Tag f n a (cs @ [e]))"
proof (induction f e q and f e ds rule: append_child_append_child_list.induct)
  case (4 f e c cs')
  show ?case
  proof (cases "find_tag f c")
    case None
    then have "f \<notin> set (tag_ids c)" by (simp add: find_tag_None_iff)
    then have "append_child f e c = c" by (rule append_child_absent(1))
    with None "4.IH"(2) "4.prems" show ?thesis by simp
  next
    case (Some t)
    with "4.prems" "4.IH"(1) show ?thesis by simp
  qed
qed (auto split: if_splits)

lemma find_tag_append_child_new:
  "f \<in> set (tag_ids q) \<Longrightarrow> j \<notin> set (tag_ids q) \<Longrightarrow>
     find_tag j (append_child f e q) = find_tag j e"
  "f \<in> set (tag_ids_list ds) \<Longrightarrow> j \<notin> set (tag_ids_list ds) \<Longrightarrow>
     find_tag_list j (append_child_list f e ds) = find_tag j e"
proof (induction f e q and f e ds rule: append_child_append_child_list.induct)
  case (1 f e k n a cs)
  then have "find_tag_list j cs = None" by (simp add: find_tag_None_iff)
  with 1 show ?case by (auto simp: find_tag_list_append split: option.splits)
next
  case (4 f e c cs)
  from "4.prems"(2) have jc: "find_tag j c = None" and jd: "find_tag_list j cs = None"
    by (simp_all add: find_tag_None_iff)
  show ?case
  proof (cases "f \<in> set (tag_ids c)")
    case True
    from "4.IH"(1) [OF True] "4.prems"(2) have h: "find_tag j (append_child f e c) = find_tag j e"
      by simp
    show ?thesis
    proof (cases "f \<in> set (tag_ids_list cs)")
      case True
      from "4.IH"(2) [OF True] "4.prems"(2) h show ?thesis by (simp split: option.splits)
    next
      case False
      then have "append_child_list f e cs = cs" by (rule append_child_absent(2))
      with h jd show ?thesis by (simp split: option.splits)
    qed
  next
    case False
    then have u: "append_child f e c = c" by (rule append_child_absent(1))
    from False "4.prems"(1) have "f \<in> set (tag_ids_list cs)" by simp
    from "4.IH"(2) [OF this] "4.prems"(2) u jc show ?thesis by simp
  qed
qed simp_all

lemma append_child_found_list:
  "find_tag_list j ds = Some t \<Longrightarrow> f \<notin> set (tag_ids_list ds) \<Longrightarrow> append_child f e t = t"
  using find_tag_ids_subset(2) [of j ds t] append_child_absent(1) [of f t e] by auto

lemma find_tag_append_child_old:
  "distinct (tag_ids q) \<Longrightarrow> j \<notin> set (tag_ids e) \<Longrightarrow>
     find_tag j (append_child f e q) = map_option (append_child f e) (find_tag j q)"
  "distinct (tag_ids_list ds) \<Longrightarrow> j \<notin> set (tag_ids e) \<Longrightarrow>
     find_tag_list j (append_child_list f e ds) = map_option (append_child f e) (find_tag_list j ds)"
proof (induction f e q and f e ds rule: append_child_append_child_list.induct)
  case (1 f e k n a cs)
  show ?case
  proof (cases "k = f")
    case True
    from "1.prems"(2) have je: "find_tag j e = None" by (simp add: find_tag_None_iff)
    from True "1.prems"(1) have nf: "f \<notin> set (tag_ids_list cs)" by simp
    show ?thesis
    proof (cases "find_tag_list j cs")
      case None
      with True je show ?thesis by (simp add: find_tag_list_append)
    next
      case (Some t)
      from append_child_found_list [OF Some nf] Some True show ?thesis
        by (simp add: find_tag_list_append)
    qed
  next
    case False
    with "1.IH" [OF False] "1.prems" show ?thesis by simp
  qed
next
  case (4 f e c cs)
  from "4.prems"(1) have dc: "distinct (tag_ids c)" and dd: "distinct (tag_ids_list cs)" by auto
  from "4.IH"(1) [OF dc "4.prems"(2)] "4.IH"(2) [OF dd "4.prems"(2)] show ?case
    by (cases "find_tag j c") simp_all
qed simp_all

lemma outside_iff:
  "outside f p j n a = (\<exists>cs. find_tag j p = Some (Tag j n a cs) \<and> f \<notin> set (j # tag_ids_list cs))"
  by (auto simp: outside_def split: option.splits node.splits dest: find_tag_Some_id(1))

lemma find_tag_distinct:
  "find_tag i p = Some e \<Longrightarrow> distinct (tag_ids p) \<Longrightarrow> distinct (tag_ids e)"
  "find_tag_list i ds = Some e \<Longrightarrow> distinct (tag_ids_list ds) \<Longrightarrow> distinct (tag_ids e)"
  by (induction i p and i ds rule: find_tag_find_tag_list.induct)
     (auto split: option.splits if_splits)

lemma tag_ids_extract_subset:
  "set (tag_ids (extract_tag i p)) \<subseteq> set (tag_ids p)"
  "set (tag_ids_list (extract_tag_list i ds)) \<subseteq> set (tag_ids_list ds)"
  by (induction i p and i ds rule: extract_tag_extract_tag_list.induct) auto

lemma top_ids_extract: "top_ids (extract_tag_list i ds) = filter (\<lambda>j. j \<noteq> i) (top_ids ds)"
  by (induction ds rule: top_ids.induct) auto

lemma top_ids_append [simp]: "top_ids (xs @ ys) = top_ids xs @ top_ids ys"
  by (induction xs rule: top_ids.induct) simp_all

lemma move_step:
  assumes d: "distinct (tag_ids p)" and fi: "find_tag i p = Some e"
    and ff: "find_tag f p = Some (Tag f fn fa fcs)" and na: "f \<notin> set (tag_ids e)"
  defines "p' \<equiv> append_child f e (extract_tag i p)"
  shows "distinct (tag_ids p')"
    and "set (tag_ids p') = set (tag_ids p)"
    and "find_tag f p' = Some (Tag f fn fa (extract_tag_list i fcs @ [e]))"
    and "set (tag_ids_list fcs) \<subseteq> set (tag_ids_list (extract_tag_list i fcs @ [e]))"
    and "outside f p j n a \<Longrightarrow> outside f p' j n a"
proof -
  let ?q = "extract_tag i p"
  from ff have fp: "f \<in> set (tag_ids p)" by (metis find_tag_None_iff(1) option.distinct(1))
  obtain k pn pa pcs where p: "p = Tag k pn pa pcs"
    using fi by (cases p) auto
  have ki: "k \<noteq> i"
  proof
    assume "k = i"
    with fi p have "e = p" by simp
    with fp na show False by simp
  qed
  from p ki have tp: "is_tag p" "nid p \<noteq> i" by simp_all
  have idq: "tag_ids ?q = filter (\<lambda>j. j \<notin> set (tag_ids e)) (tag_ids p)"
    using tag_ids_extract(1) [OF d tp] fi by simp
  have dq: "distinct (tag_ids ?q)" using d by (simp add: idq)
  have de: "distinct (tag_ids e)" using find_tag_distinct(1) [OF fi d] .
  have sub: "set (tag_ids e) \<subseteq> set (tag_ids p)" using find_tag_ids_subset(1) [OF fi] .
  have fq: "f \<in> set (tag_ids ?q)" using fp na by (simp add: idq)
  have disj: "set (tag_ids e) \<inter> set (tag_ids ?q) = {}" by (auto simp: idq)
  from tag_ids_append_child(1) [OF dq fq de disj]
  show "distinct (tag_ids p')" and "set (tag_ids p') = set (tag_ids p)"
    using sub by (auto simp: p'_def idq)
  have fex: "\<And>j. j \<notin> set (tag_ids e) \<Longrightarrow> find_tag j ?q = map_option (extract_tag i) (find_tag j p)"
    using find_tag_extract(1) [OF d tp] fi by simp
  from fex [OF na] ff have "find_tag f ?q = Some (Tag f fn fa (extract_tag_list i fcs))" by simp
  then show "find_tag f p' = Some (Tag f fn fa (extract_tag_list i fcs @ [e]))"
    unfolding p'_def by (rule find_tag_append_child_self(1))
  have dF: "distinct (tag_ids_list fcs)" using find_tag_distinct(1) [OF ff d] by simp
  have "(case find_tag_list i fcs of None \<Rightarrow> {} | Some e' \<Rightarrow> set (tag_ids e')) \<subseteq> set (tag_ids e)"
  proof (cases "find_tag_list i fcs")
    case None
    then show ?thesis by simp
  next
    case (Some e')
    then have "i \<in> set (tag_ids (Tag f fn fa fcs))"
      by (metis find_tag_None_iff(2) option.distinct(1) list.set_intros(2) tag_ids.simps(1))
    from find_tag_below(1) [OF d ff this] fi Some na have "e' = e"
      by (auto split: if_splits)
    then show ?thesis using Some by simp
  qed
  then show "set (tag_ids_list fcs) \<subseteq> set (tag_ids_list (extract_tag_list i fcs @ [e]))"
    using tag_ids_extract(2) [OF dF, of i] by auto
  show "outside f p' j n a" if o: "outside f p j n a"
  proof -
    from o obtain cs where fj: "find_tag j p = Some (Tag j n a cs)"
      and nf: "f \<notin> set (j # tag_ids_list cs)" by (auto simp: outside_iff)
    show ?thesis
    proof (cases "j \<in> set (tag_ids e)")
      case True
      from find_tag_below(1) [OF d fi True] fj have "find_tag j e = Some (Tag j n a cs)" by simp
      moreover from True disj have "j \<notin> set (tag_ids ?q)" by auto
      ultimately have "find_tag j p' = Some (Tag j n a cs)"
        unfolding p'_def using find_tag_append_child_new(1) [OF fq] by simp
      with nf show ?thesis by (auto simp: outside_iff)
    next
      case False
      from fex [OF False] fj have "find_tag j ?q = Some (Tag j n a (extract_tag_list i cs))" by simp
      with find_tag_append_child_old(1) [OF dq False, of f]
      have "find_tag j p' = Some (append_child f e (Tag j n a (extract_tag_list i cs)))"
        by (simp add: p'_def)
      moreover have "f \<notin> set (tag_ids (Tag j n a (extract_tag_list i cs)))"
        using nf tag_ids_extract_subset(2) [of i cs] by auto
      ultimately have "find_tag j p' = Some (Tag j n a (extract_tag_list i cs))"
        using append_child_absent(1) by metis
      moreover have "f \<notin> set (j # tag_ids_list (extract_tag_list i cs))"
        using nf tag_ids_extract_subset(2) [of i cs] by auto
      ultimately show ?thesis by (auto simp: outside_iff)
    qed
  qed
qed

lemma append_tag_found:
  "find_tag i p = Some e \<Longrightarrow> append_tag f (Tag i n a cs) p = append_child f e (extract_tag i p)"
  by (simp add: append_tag_def)

lemma extend_moves:
  assumes "distinct (tag_ids p)" and "find_tag f p = Some (Tag f fn fa fcs)"
    and "list_all (\<lambda>e. case e of Tag j n a cs \<Rightarrow> outside f p j n a
                         | NavigableString s \<Rightarrow> False) es"
  shows "\<exists>p' fcs'. extend f es p = (None, p') \<and> distinct (tag_ids p')
           \<and> set (tag_ids p') = set (tag_ids p)
           \<and> find_tag f p' = Some (Tag f fn fa fcs')
           \<and> set (top_ids fcs) \<union> set (top_ids es) \<subseteq> set (top_ids fcs')
           \<and> (distinct (top_ids es) \<longrightarrow>
                top_ids fcs' = filter (\<lambda>j. j \<notin> set (top_ids es)) (top_ids fcs) @ top_ids es)
           \<and> set (tag_ids_list fcs) \<subseteq> set (tag_ids_list fcs')
           \<and> (\<forall>j n a. outside f p j n a \<longrightarrow> outside f p' j n a)"
  using assms
proof (induction es arbitrary: p fcs)
  case Nil
  then show ?case by simp
next
  case (Cons e0 es)
  from Cons.prems(3) obtain i n a cs where e0: "e0 = Tag i n a cs" and o: "outside f p i n a"
    by (cases e0) auto
  from o obtain cs' where fi: "find_tag i p = Some (Tag i n a cs')"
    and nf: "f \<notin> set (tag_ids (Tag i n a cs'))" by (auto simp: outside_iff)
  let ?e = "Tag i n a cs'"
  let ?p1 = "append_child f ?e (extract_tag i p)"
  let ?fcs1 = "extract_tag_list i fcs @ [?e]"
  from nf have "i \<noteq> f" by simp
  with e0 fi have ex: "extend f (e0 # es) p = extend f es ?p1"
    by (simp add: append_tag_found)
  note ms = move_step [OF Cons.prems(1) fi Cons.prems(2) nf]
  have la: "list_all (\<lambda>e. case e of Tag j n a cs \<Rightarrow> outside f ?p1 j n a
                         | NavigableString s \<Rightarrow> False) es"
    using Cons.prems(3) ms(5) by (auto simp: list_all_iff split: node.splits)
  from Cons.IH [OF ms(1) ms(3) la] obtain p' fcs' where
    r: "extend f es ?p1 = (None, p')" "distinct (tag_ids p')" "set (tag_ids p') = set (tag_ids ?p1)"
       "find_tag f p' = Some (Tag f fn fa fcs')"
       "set (top_ids ?fcs1) \<union> set (top_ids es) \<subseteq> set (top_ids fcs')"
       "distinct (top_ids es) \<longrightarrow>
          top_ids fcs' = filter (\<lambda>j. j \<notin> set (top_ids es)) (top_ids ?fcs1) @ top_ids es"
       "set (tag_ids_list ?fcs1) \<subseteq> set (tag_ids_list fcs')"
       "\<forall>j n a. outside f ?p1 j n a \<longrightarrow> outside f p' j n a"
    by blast
  have t1: "top_ids ?fcs1 = filter (\<lambda>j. j \<noteq> i) (top_ids fcs) @ [i]"
    by (simp add: top_ids_extract)
  have a: "set (top_ids fcs) \<union> set (top_ids (e0 # es)) \<subseteq> set (top_ids fcs')"
    using r(5) by (auto simp: top_ids_extract e0)
  have b: "distinct (top_ids (e0 # es)) \<longrightarrow>
        top_ids fcs' = filter (\<lambda>j. j \<notin> set (top_ids (e0 # es))) (top_ids fcs) @ top_ids (e0 # es)"
  proof
    assume "distinct (top_ids (e0 # es))"
    then have di: "i \<notin> set (top_ids es)" and de: "distinct (top_ids es)" by (simp_all add: e0)
    from r(6) de have "top_ids fcs' = filter (\<lambda>j. j \<notin> set (top_ids es)) (top_ids ?fcs1) @ top_ids es"
      by simp
    also have "filter (\<lambda>j. j \<notin> set (top_ids es)) (top_ids ?fcs1)
        = filter (\<lambda>j. j \<notin> set (top_ids (e0 # es))) (top_ids fcs) @ [i]"
      using di by (auto simp: top_ids_extract e0 intro: filter_cong)
    finally show "top_ids fcs' = filter (\<lambda>j. j \<notin> set (top_ids (e0 # es))) (top_ids fcs) @ top_ids (e0 # es)"
      by (simp add: e0)
  qed
  have c: "set (tag_ids_list fcs) \<subseteq> set (tag_ids_list fcs')"
    using ms(4) r(7) by blast
  have d: "\<forall>j n a. outside f p j n a \<longrightarrow> outside f p' j n a"
    using ms(5) r(8) by blast
  from ex r(1,2,3,4) ms(2) a b c d show ?case by auto
qed


subsection \<open>The elements associated to a form\<close>

lemma in_descendants_list: "x \<in> set cs \<Longrightarrow> x \<in> set (descendants_list cs)"
  by (induction cs) auto

lemma children_in_descendants:
  "find_tag f p = Some (Tag f n a cs) \<Longrightarrow> x \<in> set cs \<Longrightarrow> x \<in> set (descendants p)"
  "find_tag_list f ds = Some (Tag f n a cs) \<Longrightarrow> x \<in> set cs \<Longrightarrow> x \<in> set (descendants_list ds)"
  by (induction f p and f ds rule: find_tag_find_tag_list.induct)
     (auto split: option.splits if_splits dest: in_descendants_list)

lemma find_associated_elements_mem:
  "Tag i n a cs \<in> set (descendants p) \<Longrightarrow> n \<in> set elements_with_owner_form \<Longrightarrow>
   map_of a ''form'' = Some form_id \<Longrightarrow>
     Tag i n a cs \<in> set (find_associated_elements p form_id)"
  by (auto simp: find_associated_elements_def find_all_def)

lemma associated_outside:
  assumes d: "distinct (tag_ids p)"
    and na: "\<forall>e \<in> set (find_associated_elements p form_id). f \<notin> set (tag_ids e)"
  shows "list_all (\<lambda>e. case e of Tag j n a cs \<Rightarrow> outside f p j n a
                         | NavigableString s \<Rightarrow> False) (find_associated_elements p form_id)"
  unfolding list_all_iff
proof
  fix e assume e: "e \<in> set (find_associated_elements p form_id)"
  from find_associated_elements_set [OF e] obtain j n a cs where
    ed: "e \<in> set (descendants p)" and et: "e = Tag j n a cs" by auto
  from find_tag_unique(1) [OF d ed [unfolded et]] have "find_tag j p = Some (Tag j n a cs)" .
  moreover from na e et have "f \<notin> set (j # tag_ids_list cs)" by auto
  ultimately have "outside f p j n a" by (auto simp: outside_iff)
  with et show "case e of Tag j n a cs \<Rightarrow> outside f p j n a | NavigableString s \<Rightarrow> False"
    by simp
qed

lemma resolve_form_Inr:
  assumes "resolve_form env c selector nr = (Inr t, c1)" and "page (state c) = Some p"
    and "case selector of Handle h \<Rightarrow> h \<in> set (descendants p) | Selector s \<Rightarrow> True"
  shows "c1 = c \<and> t \<in> set (descendants p)"
proof -
  have sel: "select_nth env c s nr = (Inr t, c1) \<Longrightarrow> c1 = c \<and> t \<in> set (descendants p)" for s
  proof -
    assume a: "select_nth env c s nr = (Inr t, c1)"
    with assms(2) have "c1 = c" and "t = last (select env p s (nr + 1))"
      and ne: "select env p s (nr + 1) \<noteq> []"
      by (auto simp: select_nth_def Let_def split: if_splits list.splits)
    then have "t \<in> set (select env p s (nr + 1))" by simp
    then have "t \<in> set (css_matches env p s)"
      by (auto simp: select_def Let_def split: if_splits dest: in_set_takeD)
    with \<open>c1 = c\<close> show ?thesis by (simp add: css_matches_def)
  qed
  show ?thesis
  proof (cases selector)
    case (Selector s)
    with assms(1) sel [of s] show ?thesis by (simp add: resolve_form_def)
  next
    case (Handle h)
    show ?thesis
    proof (cases h)
      case (Tag i n a cs)
      with Handle assms(1,3) show ?thesis by (auto simp: resolve_form_def split: if_splits)
    next
      case (NavigableString s)
      with Handle assms(1) sel [of s] show ?thesis by (simp add: resolve_form_def)
    qed
  qed
qed

lemma select_form_with_id:
  assumes p: "page (state c) = Some p" and d: "distinct (tag_ids p)"
    and s: "case selector of Handle h \<Rightarrow> h \<in> set (descendants p) | Selector s \<Rightarrow> True"
    and r: "select_form env c selector nr = (Inr (Form f), c')"
    and ff: "find_tag f p = Some (Tag f fn fa fcs)" and fid: "map_of fa ''id'' = Some form_id"
  shows "\<exists>p'. extend f (find_associated_elements p form_id) p = (None, p')
           \<and> c' = c\<lparr>state := (state c)\<lparr>page := Some p', form := Some (Form f)\<rparr>\<rparr>"
proof -
  obtain rr c1 where rf: "resolve_form env c selector nr = (rr, c1)"
    by (cases "resolve_form env c selector nr")
  from r rf obtain t where rr: "rr = Inr t"
    by (cases rr) (auto simp: select_form_def)
  from resolve_form_Inr [OF rf [unfolded rr] p s] have c1: "c1 = c" and td: "t \<in> set (descendants p)"
    by simp_all
  from r rf rr obtain k n a cs where t: "t = Tag k n a cs"
    by (cases t) (auto simp: select_form_def)
  have kf: "k = f"
    using r rf rr t
    by (auto simp: select_form_def set_form_def split: option.splits prod.splits)
  from find_tag_unique(1) [OF d td [unfolded t kf]] ff have "n = fn" "a = fa" "cs = fcs" by simp_all
  with r rf rr t kf c1 p fid show ?thesis
    by (auto simp: select_form_def set_form_def split: option.splits prod.splits)
qed

text \<open>
  C5. Let the page have tags of distinct identities, and let \<^verbatim>\<open>select_form\<close> return
  a form of the page that carries the id \<open>form_id\<close> and lies inside none of its
  associated elements. Then every \<^verbatim>\<open>input\<close>, \<^verbatim>\<open>button\<close>, \<^verbatim>\<open>fieldset\<close>, \<^verbatim>\<open>object\<close>,
  \<^verbatim>\<open>output\<close>, \<^verbatim>\<open>select\<close> or \<^verbatim>\<open>textarea\<close> tag anywhere in the page whose \<^verbatim>\<open>form\<close>
  attribute is \<open>form_id\<close> is, with its name and attributes, a child of the form in
  the page the state holds afterwards; and every tag that was below the form
  still is.
\<close>

theorem associated_elements_included:
  assumes "page (state c) = Some p" and "distinct (tag_ids p)"
    and "case selector of Handle h \<Rightarrow> h \<in> set (descendants p) | Selector s \<Rightarrow> True"
    and "select_form env c selector nr = (Inr (Form f), c')"
    and "find_tag f p = Some (Tag f fn fa fcs)" and "map_of fa ''id'' = Some form_id"
    and "\<forall>e \<in> set (find_associated_elements p form_id). f \<notin> set (tag_ids e)"
    and "Tag i n a cs \<in> set (descendants p)" and "n \<in> set elements_with_owner_form"
    and "map_of a ''form'' = Some form_id"
  shows "\<exists>p' fcs' cs'. page (state c') = Some p' \<and> find_tag f p' = Some (Tag f fn fa fcs')
           \<and> Tag i n a cs' \<in> set fcs'
           \<and> set (tag_ids_list fcs) \<subseteq> set (tag_ids_list fcs')"
proof -
  let ?es = "find_associated_elements p form_id"
  from select_form_with_id [OF assms(1-6)] obtain p1 where
    e1: "extend f ?es p = (None, p1)"
    and c': "c' = c\<lparr>state := (state c)\<lparr>page := Some p1, form := Some (Form f)\<rparr>\<rparr>" by blast
  from extend_moves [OF assms(2,5) associated_outside [OF assms(2,7)]] e1 obtain fcs' where
    d': "distinct (tag_ids p1)" and ff': "find_tag f p1 = Some (Tag f fn fa fcs')"
    and top: "set (top_ids fcs) \<union> set (top_ids ?es) \<subseteq> set (top_ids fcs')"
    and under: "set (tag_ids_list fcs) \<subseteq> set (tag_ids_list fcs')"
    and out: "\<forall>j n a. outside f p j n a \<longrightarrow> outside f p1 j n a"
    by auto
  from find_associated_elements_mem [OF assms(8-10)] have m: "Tag i n a cs \<in> set ?es" .
  then have "i \<in> set (top_ids ?es)" by (rule mem_top_ids)
  with top have "i \<in> set (top_ids fcs')" by auto
  then obtain n' a' cs' where ch: "Tag i n' a' cs' \<in> set fcs'" by (auto dest: top_ids_mem)
  from children_in_descendants(1) [OF ff' ch] have "Tag i n' a' cs' \<in> set (descendants p1)" .
  from find_tag_unique(1) [OF d' this] have f1: "find_tag i p1 = Some (Tag i n' a' cs')" .
  from find_tag_unique(1) [OF assms(2,8)] m assms(7) have "outside f p i n a"
    by (auto simp: outside_iff)
  with out have "outside f p1 i n a" by blast
  with f1 have "n' = n" "a' = a" by (auto simp: outside_iff)
  with ch ff' under c' show ?thesis by auto
qed

subsection \<open>The page after a selection\<close>

lemma top_ids_descendants:
  "top_ids (descendants p) = tl (tag_ids p)"
  "top_ids (descendants_list ds) = tag_ids_list ds"
proof (induction p and ds rule: descendants_descendants_list.induct)
  case (4 c ds)
  then show ?case by (cases c) simp_all
qed simp_all

lemma top_ids_filter_subset: "set (top_ids (filter P xs)) \<subseteq> set (top_ids xs)"
  by (induction xs rule: top_ids.induct) auto

lemma top_ids_filter_distinct: "distinct (top_ids xs) \<Longrightarrow> distinct (top_ids (filter P xs))"
proof (induction xs rule: top_ids.induct)
  case (2 i n a cs xs)
  with top_ids_filter_subset [of P xs] show ?case by auto
qed simp_all

lemma top_ids_matches:
  "j \<in> set (top_ids (filter (tag_matches k fs) xs)) \<Longrightarrow> \<exists>a cs. Tag j k a cs \<in> set xs"
  by (induction xs rule: top_ids.induct) (auto split: if_splits)

lemma top_ids_name_unique:
  "distinct (top_ids xs) \<Longrightarrow> Tag j n a cs \<in> set xs \<Longrightarrow> Tag j n' a' cs' \<in> set xs \<Longrightarrow> n = n'"
  by (induction xs rule: top_ids.induct) (auto dest: mem_top_ids)

lemma top_ids_concat:
  "j \<in> set (top_ids (concat (map F ks))) \<Longrightarrow> \<exists>k \<in> set ks. j \<in> set (top_ids (F k))"
  by (induction ks) auto

lemma top_ids_find_all_distinct:
  "distinct (top_ids xs) \<Longrightarrow> distinct ks \<Longrightarrow>
     distinct (top_ids (concat (map (\<lambda>k. filter (tag_matches k fs) xs) ks)))"
proof (induction ks)
  case Nil
  then show ?case by simp
next
  case (Cons k ks)
  have "set (top_ids (filter (tag_matches k fs) xs))
      \<inter> set (top_ids (concat (map (\<lambda>k. filter (tag_matches k fs) xs) ks))) = {}"
  proof (rule ccontr)
    assume "\<not> ?thesis"
    then obtain j where a: "j \<in> set (top_ids (filter (tag_matches k fs) xs))"
      and b: "j \<in> set (top_ids (concat (map (\<lambda>k. filter (tag_matches k fs) xs) ks)))" by auto
    from top_ids_concat [OF b] obtain k' where k': "k' \<in> set ks"
      and c: "j \<in> set (top_ids (filter (tag_matches k' fs) xs))" by auto
    from top_ids_matches [OF a] top_ids_matches [OF c] top_ids_name_unique [OF Cons.prems(1)]
    have "k = k'" by blast
    with k' Cons.prems(2) show False by simp
  qed
  with Cons top_ids_filter_distinct [OF Cons.prems(1), of "tag_matches k fs"] show ?case by simp
qed

lemma associated_distinct:
  "distinct (tag_ids p) \<Longrightarrow> distinct (top_ids (find_associated_elements p form_id))"
  unfolding find_associated_elements_def find_all_def
  by (rule top_ids_find_all_distinct)
     (simp_all add: top_ids_descendants distinct_tl elements_with_owner_form_def)

text \<open>
  C10. Let the page have tags of distinct identities, and let \<^verbatim>\<open>select_form\<close>
  return a form of the page that carries an id and lies inside none of its
  associated elements. Then \<^verbatim>\<open>select_form\<close> changes the page the state holds: the
  state after the call is the state before with the selected form and with the
  page that \<^verbatim>\<open>form.extend\<close> produced in place. In that page the
  form's children are its former children without the associated elements,
  followed by the associated elements in the order \<^verbatim>\<open>find_all\<close> found them; the
  page has the same tags as before (they were moved, not copied); and it differs
  from the page before whenever an associated element was not already a child of
  the form. The \<^verbatim>\<open>page\<close> property, \<^verbatim>\<open>links\<close> and a later \<^verbatim>\<open>select_form\<close> read this
  page of the state.
\<close>

theorem select_form_moves_elements:
  assumes "page (state c) = Some p" and "distinct (tag_ids p)"
    and "case selector of Handle h \<Rightarrow> h \<in> set (descendants p) | Selector s \<Rightarrow> True"
    and "select_form env c selector nr = (Inr (Form f), c')"
    and "find_tag f p = Some (Tag f fn fa fcs)" and "map_of fa ''id'' = Some form_id"
    and "\<forall>e \<in> set (find_associated_elements p form_id). f \<notin> set (tag_ids e)"
  shows "\<exists>p' fcs'. extend f (find_associated_elements p form_id) p = (None, p')
           \<and> state c' = (state c)\<lparr>page := Some p', form := Some (Form f)\<rparr>
           \<and> find_tag f p' = Some (Tag f fn fa fcs')
           \<and> top_ids fcs' =
               filter (\<lambda>j. j \<notin> set (top_ids (find_associated_elements p form_id))) (top_ids fcs)
                 @ top_ids (find_associated_elements p form_id)
           \<and> distinct (tag_ids p') \<and> set (tag_ids p') = set (tag_ids p)
           \<and> (\<not> set (top_ids (find_associated_elements p form_id)) \<subseteq> set (top_ids fcs)
                \<longrightarrow> p' \<noteq> p)"
proof -
  let ?es = "find_associated_elements p form_id"
  from select_form_with_id [OF assms(1-6)] obtain p1 where
    e1: "extend f ?es p = (None, p1)"
    and c': "c' = c\<lparr>state := (state c)\<lparr>page := Some p1, form := Some (Form f)\<rparr>\<rparr>" by blast
  from extend_moves [OF assms(2,5) associated_outside [OF assms(2,7)]] e1
    associated_distinct [OF assms(2), of form_id]
  obtain fcs' where
    d': "distinct (tag_ids p1)" and s': "set (tag_ids p1) = set (tag_ids p)"
    and ff': "find_tag f p1 = Some (Tag f fn fa fcs')"
    and top: "top_ids fcs' = filter (\<lambda>j. j \<notin> set (top_ids ?es)) (top_ids fcs) @ top_ids ?es"
    by auto
  have "p1 \<noteq> p" if n: "\<not> set (top_ids ?es) \<subseteq> set (top_ids fcs)"
  proof
    assume "p1 = p"
    with ff' assms(5) have "fcs' = fcs" by simp
    with top have "set (top_ids ?es) \<subseteq> set (top_ids fcs)" by (metis Un_upper2 set_append)
    with n show False ..
  qed
  with e1 c' d' s' ff' top show ?thesis by auto
qed

lemma sample_associated:
  "find_associated_elements sample_page ''f''
     = [Tag 3 ''input'' [(''form'', ''f''), (''name'', ''extra'')] []]"
  by (simp add: find_associated_elements_def find_all_def elements_with_owner_form_def
      sample_descendants)

lemma sample_extend:
  "extend 1 [Tag 3 ''input'' [(''form'', ''f''), (''name'', ''extra'')] []] sample_page
     = (None, moved_page)"
  by (simp add: append_tag_def sample_page_def moved_page_def)

lemma sample_select_form:
  "select_form sample_site at_home (Selector ''form'') 0 = (Inr (Form 1), with_form)"
  by (simp add: select_form_def resolve_form_def select_nth_def select_def Let_def
      at_home_page sample_forms sample_associated sample_extend [simplified] set_form_def
      with_form_def)

lemma sample_find_form:
  "find_tag 1 sample_page
     = Some (Tag 1 ''form'' [(''id'', ''f'')] [Tag 2 ''input'' [(''name'', ''q'')] []])"
  by (simp add: sample_page_def)

theorem associated_elements_included_witness:
  "page (state at_home) = Some sample_page \<and> distinct (tag_ids sample_page)
   \<and> select_form sample_site at_home (Selector ''form'') 0 = (Inr (Form 1), with_form)
   \<and> find_associated_elements sample_page ''f''
       = [Tag 3 ''input'' [(''form'', ''f''), (''name'', ''extra'')] []]
   \<and> Tag 3 ''input'' [(''form'', ''f''), (''name'', ''extra'')] [] \<in> set (descendants sample_page)
   \<and> (\<exists>p' fcs' cs'. page (state with_form) = Some p'
         \<and> find_tag 1 p' = Some (Tag 1 ''form'' [(''id'', ''f'')] fcs')
         \<and> Tag 3 ''input'' [(''form'', ''f''), (''name'', ''extra'')] cs' \<in> set fcs'
         \<and> set (tag_ids_list [Tag 2 ''input'' [(''name'', ''q'')] []]) \<subseteq> set (tag_ids_list fcs'))"
proof -
  have s: "case Selector ''form'' of Handle h \<Rightarrow> h \<in> set (descendants sample_page)
           | Selector s \<Rightarrow> True" by simp
  have i: "map_of [(''id'', ''f'')] ''id'' = Some ''f''" by simp
  have n: "\<forall>e \<in> set (find_associated_elements sample_page ''f''). 1 \<notin> set (tag_ids e)"
    by (simp add: sample_associated)
  have m: "Tag 3 ''input'' [(''form'', ''f''), (''name'', ''extra'')] [] \<in> set (descendants sample_page)"
    by (simp add: sample_descendants)
  have k: "''input'' \<in> set elements_with_owner_form"
    by (simp add: elements_with_owner_form_def)
  have a: "map_of [(''form'', ''f''), (''name'', ''extra'')] ''form'' = Some ''f''" by simp
  from associated_elements_included [OF at_home_page sample_page_distinct s sample_select_form
      sample_find_form i n m k a]
    at_home_page sample_page_distinct sample_select_form sample_associated m
  show ?thesis by blast
qed

theorem select_form_moves_elements_witness:
  "page (state at_home) = Some sample_page \<and> distinct (tag_ids sample_page)
   \<and> select_form sample_site at_home (Selector ''form'') 0 = (Inr (Form 1), with_form)
   \<and> page (state with_form) = Some moved_page
   \<and> moved_page \<noteq> sample_page
   \<and> (\<exists>p' fcs'. extend 1 (find_associated_elements sample_page ''f'') sample_page = (None, p')
         \<and> state with_form = (state at_home)\<lparr>page := Some p', form := Some (Form 1)\<rparr>
         \<and> find_tag 1 p' = Some (Tag 1 ''form'' [(''id'', ''f'')] fcs')
         \<and> top_ids fcs' = [2, 3])"
proof -
  have s: "case Selector ''form'' of Handle h \<Rightarrow> h \<in> set (descendants sample_page)
           | Selector s \<Rightarrow> True" by simp
  have i: "map_of [(''id'', ''f'')] ''id'' = Some ''f''" by simp
  have n: "\<forall>e \<in> set (find_associated_elements sample_page ''f''). 1 \<notin> set (tag_ids e)"
    by (simp add: sample_associated)
  from select_form_moves_elements [OF at_home_page sample_page_distinct s sample_select_form
      sample_find_form i n]
  have "\<exists>p' fcs'. extend 1 (find_associated_elements sample_page ''f'') sample_page = (None, p')
         \<and> state with_form = (state at_home)\<lparr>page := Some p', form := Some (Form 1)\<rparr>
         \<and> find_tag 1 p' = Some (Tag 1 ''form'' [(''id'', ''f'')] fcs')
         \<and> top_ids fcs' = [2, 3]"
    by (simp add: sample_associated) blast
  moreover have "page (state with_form) = Some moved_page" by (simp add: with_form_def)
  moreover have "moved_page \<noteq> sample_page" by (simp add: moved_page_def sample_page_def)
  ultimately show ?thesis
    using at_home_page sample_page_distinct sample_select_form by blast
qed

subsection \<open>The shared default of \<^verbatim>\<open>bs4_kwargs\<close>\<close>

text \<open>
  A call of \<^verbatim>\<open>follow_link\<close> with a pattern and no \<^verbatim>\<open>bs4_kwargs\<close> leaves the pattern
  in the default dictionary; the next such call finds \<^verbatim>\<open>url_regex\<close> there and
  raises the \<^verbatim>\<open>ValueError\<close> of \<^verbatim>\<open>_find_link_internal\<close>, although its caller passed no
  \<^verbatim>\<open>url_regex\<close>.
\<close>

lemma follow_link_default_open_relative:
  "follow_link_default (snd (open_relative env c h k)) = follow_link_default c"
  by (simp add: open_relative_def open_url_def put_def split: prod.splits sum.splits)

lemma find_link_internal_stores:
  "truthy link \<Longrightarrow> href_tag link = None \<Longrightarrow> url_regex d = None \<Longrightarrow>
   find_link_internal env c link d = (r, c1, d1) \<Longrightarrow> url_regex d1 = Some link"
  by (auto simp: find_link_internal_def Let_def split: sum.splits if_splits prod.splits option.splits)

lemma follow_link_stores_pattern:
  assumes "truthy link" and "href_tag link = None"
    and "url_regex (follow_link_default c) = None" and "url_regex kwargs = None"
  shows "url_regex (follow_link_default (snd (follow_link env c link None requests_kw kwargs)))
           = Some link"
proof -
  let ?d = "dict_update (follow_link_default c) kwargs"
  obtain r c1 d1 where f: "find_link_internal env c link ?d = (r, c1, d1)"
    using prod_cases3 by blast
  from assms(3,4) have "url_regex ?d = None" by (simp add: dict_update_def)
  from find_link_internal_stores [OF assms(1,2) this f] have "url_regex d1 = Some link" .
  then show ?thesis
    by (simp add: follow_link_def f Let_def follow_link_default_open_relative
        split: sum.splits option.splits)
qed

lemma follow_link_stale_default:
  assumes "truthy link" and "href_tag link = None" and "url_regex (follow_link_default c) \<noteq> None"
  shows "fst (follow_link env c link None requests_kw kwargs) = Inl ValueError_url_regex"
proof -
  from assms(3) have "url_regex (dict_update (follow_link_default c) kwargs) \<noteq> None"
    by (intro url_regex_dict_update) simp
  from find_link_internal_conflict [OF assms(1,2) this, of env c] show ?thesis
    by (simp add: follow_link_def Let_def)
qed

lemma follow_link_twice:
  assumes "truthy l1" and "href_tag l1 = None" and "truthy l2" and "href_tag l2 = None"
    and "url_regex (follow_link_default c) = None"
  shows "fst (follow_link env (snd (follow_link env c l1 None k1 empty_kwargs)) l2 None k2
                empty_kwargs) = Inl ValueError_url_regex"
proof (rule follow_link_stale_default [OF assms(3,4)])
  from follow_link_stores_pattern [OF assms(1,2,5), of empty_kwargs env k1]
  show "url_regex (follow_link_default (snd (follow_link env c l1 None k1 empty_kwargs))) \<noteq> None"
    by (simp add: empty_kwargs_def)
qed

end
